theory Spec2Isabelle
  imports Main "HOL-Library.Word" "HOL-Library.Signed_Division"
begin

section \<open>The arena and its machine values\<close>

text \<open>
  \<^verbatim>\<open>alloc.cpp\<close> keeps one global \<^verbatim>\<open>char simulated_heap[HEAP_SIZE]\<close>. The
  model passes it explicitly: a store from byte positions to bytes, of which only the
  positions \<open>0 \<le> i < HEAP_SIZE\<close> exist. Every access of the source is checked
  against that range in the model: a failed \<^verbatim>\<open>assert\<close> and an access outside the
  array are results of their own, as is signed overflow of an \<^verbatim>\<open>int\<close>.

  A \<^verbatim>\<open>uint8_t\<close> is an \<open>8 word\<close>; a \<^verbatim>\<open>uint16_t\<close> is an \<open>int\<close> reduced modulo
  \<open>2 ^ 16\<close> where the source converts to it; an \<^verbatim>\<open>int\<close> is an \<open>int\<close> that must
  stay within 32 bits; a pointer into the arena is the \<open>int\<close> distance from
  \<^verbatim>\<open>simulated_heap\<close>, and \<^verbatim>\<open>NULL\<close> is \<open>None\<close>.
\<close>

type_synonym byte = "8 word"
type_synonym heap = "int \<Rightarrow> byte"

datatype fault = Assert_failed | Out_of_bounds | Signed_overflow

definition HEAP_SIZE :: int where
  "HEAP_SIZE = 4096"

definition BLOCK_SIZE :: int where
  "BLOCK_SIZE = 16"

definition NO_FREE_BLOCKS :: byte where
  "NO_FREE_BLOCKS = 0"

definition INT_MIN :: int where
  "INT_MIN = - (2 ^ 31)"

definition INT_MAX :: int where
  "INT_MAX = 2 ^ 31 - 1"

text \<open>Sequencing of computations that may stop with a fault.\<close>

fun bind_fault :: "fault + 'a \<Rightarrow> ('a \<Rightarrow> fault + 'b) \<Rightarrow> fault + 'b" where
  "bind_fault (Inl e) f = Inl e"
| "bind_fault (Inr x) f = f x"

text \<open>The value of an \<^verbatim>\<open>int\<close> expression: undefined outside 32 bits.\<close>

definition int_result :: "int \<Rightarrow> fault + int" where
  "int_result x = (if INT_MIN \<le> x \<and> x \<le> INT_MAX then Inr x else Inl Signed_overflow)"

text \<open>Conversion of an \<^verbatim>\<open>int\<close> to \<^verbatim>\<open>uint16_t\<close>.\<close>

definition uint16 :: "int \<Rightarrow> int" where
  "uint16 x = x mod 65536"

text \<open>A plain array access \<^verbatim>\<open>simulated_heap[i]\<close>, reading and writing.\<close>

definition heap_load :: "heap \<Rightarrow> int \<Rightarrow> fault + byte" where
  "heap_load h i = (if 0 \<le> i \<and> i < HEAP_SIZE then Inr (h i) else Inl Out_of_bounds)"

definition heap_store :: "heap \<Rightarrow> int \<Rightarrow> byte \<Rightarrow> fault + heap" where
  "heap_store h i v = (if 0 \<le> i \<and> i < HEAP_SIZE then Inr (h(i := v)) else Inl Out_of_bounds)"

section \<open>Initialisation and the header codec\<close>

definition init_heap :: "heap \<Rightarrow> heap" where
  "init_heap h =
     (let h = h(0 := 1);
          h = h(BLOCK_SIZE := 0);
          h = h(HEAP_SIZE - 1 := 0);
          h = h(BLOCK_SIZE + 1 := 0xff)
      in h)"

definition read_unsigned :: "heap \<Rightarrow> int \<Rightarrow> fault + byte" where
  "read_unsigned h index =
     (if 0 \<le> index \<and> index < HEAP_SIZE then Inr (h index) else Inl Assert_failed)"

definition get_block_bytes :: "heap \<Rightarrow> byte \<Rightarrow> fault + int" where
  "get_block_bytes h offset =
     bind_fault (read_unsigned h (uint16 (1 + uint offset * BLOCK_SIZE)))
       (\<lambda>i. Inr (uint16 (uint i * BLOCK_SIZE)))"

definition get_next :: "heap \<Rightarrow> int \<Rightarrow> fault + byte" where
  "get_next h offset =
     bind_fault (get_block_bytes h (word_of_int offset))
       (\<lambda>block_bytes. read_unsigned h (uint16 (- 1 + block_bytes + offset * BLOCK_SIZE)))"

definition get_prev :: "heap \<Rightarrow> int \<Rightarrow> fault + byte" where
  "get_prev h offset = read_unsigned h (uint16 (offset * BLOCK_SIZE))"

definition update_next :: "heap \<Rightarrow> int \<Rightarrow> byte \<Rightarrow> fault + heap" where
  "update_next h offset new_next =
     bind_fault (get_block_bytes h (word_of_int offset))
       (\<lambda>block_bytes. heap_store h (- 1 + block_bytes + offset * BLOCK_SIZE) new_next)"

definition update_prev :: "heap \<Rightarrow> int \<Rightarrow> byte \<Rightarrow> fault + heap" where
  "update_prev h offset new_prev = heap_store h (offset * BLOCK_SIZE) new_prev"

definition update_size :: "heap \<Rightarrow> int \<Rightarrow> byte \<Rightarrow> fault + heap" where
  "update_size h offset chunks = heap_store h (1 + offset * BLOCK_SIZE) chunks"

section \<open>Release\<close>

definition rdx_free :: "heap \<Rightarrow> int \<Rightarrow> fault + heap" where
  "rdx_free h ptr =
     bind_fault (heap_load h (ptr - 1)) (\<lambda>chunks.
     let offset = (word_of_int ((ptr - 1) sdiv 16) :: byte) in
     bind_fault (heap_store h (uint offset * BLOCK_SIZE + 1) chunks) (\<lambda>h.
     bind_fault (read_unsigned h 0) (\<lambda>head.
     bind_fault (update_next h (uint offset) head) (\<lambda>h.
     bind_fault (update_prev h (uint offset) 0) (\<lambda>h.
     bind_fault (update_size h (uint offset) chunks) (\<lambda>h.
     Inr (h(0 := offset))))))))"

section \<open>Acquire\<close>

text \<open>
  Lines 107 to 111: one more byte for the header, rounded up to a multiple of
  \<^verbatim>\<open>BLOCK_SIZE\<close>. C++'s \<^verbatim>\<open>%\<close> truncates towards zero (\<open>smod\<close>).
\<close>

definition round_request :: "int \<Rightarrow> fault + int" where
  "round_request bytes =
     bind_fault (int_result (bytes + 1)) (\<lambda>bytes.
     bind_fault (if bytes smod BLOCK_SIZE \<noteq> 0
                 then int_result (bytes + (BLOCK_SIZE - (bytes smod BLOCK_SIZE)))
                 else Inr bytes) (\<lambda>bytes.
     if bytes smod BLOCK_SIZE = 0 then Inr bytes else Inl Assert_failed))"

text \<open>
  Lines 122 to 157: the body of \<^verbatim>\<open>if (block_bytes >= bytes)\<close>, which unlinks the
  block at \<open>offset\<close>, writes its allocated header, gives the remainder back through
  \<open>rdx_free\<close> and returns the payload address.
\<close>

definition take_block :: "heap \<Rightarrow> int \<Rightarrow> byte \<Rightarrow> int \<Rightarrow> fault + heap \<times> int option" where
  "take_block h bytes offset block_bytes =
     bind_fault (get_prev h (uint offset)) (\<lambda>prev.
     bind_fault (get_next h (uint offset)) (\<lambda>next.
     bind_fault (if prev \<noteq> 0 then update_next h (uint prev) next
                 else if next \<noteq> 0 then Inr (h(0 := next))
                 else Inr (h(0 := NO_FREE_BLOCKS))) (\<lambda>h.
     bind_fault (if next \<noteq> 0 then update_prev h (uint next) prev else Inr h) (\<lambda>h.
     bind_fault (heap_store h (uint offset * BLOCK_SIZE) (word_of_int (bytes sdiv 16))) (\<lambda>h.
     bind_fault (if block_bytes > bytes
                 then bind_fault (int_result (block_bytes - bytes)) (\<lambda>leftover_bytes.
                      if leftover_bytes smod BLOCK_SIZE \<noteq> 0 then Inl Assert_failed
                      else let chunks = (word_of_int (leftover_bytes sdiv 16) :: byte) in
                        bind_fault (heap_store h (uint offset * BLOCK_SIZE + bytes) chunks) (\<lambda>h.
                        rdx_free h (uint offset * BLOCK_SIZE + bytes + 1)))
                 else Inr h) (\<lambda>h.
     Inr (h, Some (uint offset * BLOCK_SIZE + 1))))))))"

text \<open>
  Lines 116 to 166: the walk along the free list. It need not end (a list that runs in
  a circle through blocks that are all too small), so the result is an option and
  \<open>None\<close> stands for a call that never returns.
\<close>

partial_function (option) find_block :: "heap \<Rightarrow> int \<Rightarrow> byte \<Rightarrow> (fault + heap \<times> int option) option" where
  "find_block h bytes offset =
     (if offset \<noteq> 0 then
        (case get_block_bytes h offset of
           Inl e \<Rightarrow> Some (Inl e)
         | Inr block_bytes \<Rightarrow>
             if block_bytes \<ge> bytes then Some (take_block h bytes offset block_bytes)
             else (case get_next h (uint offset) of
                     Inl e \<Rightarrow> Some (Inl e)
                   | Inr next \<Rightarrow> find_block h bytes next))
      else Some (Inr (h, None)))"

definition rdx_malloc :: "heap \<Rightarrow> int \<Rightarrow> (fault + heap \<times> int option) option" where
  "rdx_malloc h bytes =
     (case round_request bytes of
        Inl e \<Rightarrow> Some (Inl e)
      | Inr bytes \<Rightarrow>
          (case read_unsigned h 0 of
             Inl e \<Rightarrow> Some (Inl e)
           | Inr offset \<Rightarrow> find_block h bytes offset))"

declare find_block.simps [code]

section \<open>Reading the arena as blocks\<close>

text \<open>
  What follows is not in the source: it names what the claims speak of. A block is
  named by its index, a byte. A free block keeps its chunk count in its byte 1 and its
  next pointer in its last byte; an allocated block keeps its chunk count in its byte 0,
  the byte before the address the caller holds.
\<close>

definition zero_heap :: heap where
  "zero_heap = (\<lambda>i. 0)"

definition free_chunks :: "heap \<Rightarrow> byte \<Rightarrow> int" where
  "free_chunks h b = uint (h (uint b * 16 + 1))"

definition free_end :: "heap \<Rightarrow> byte \<Rightarrow> int" where
  "free_end h b = uint b * 16 + 16 * free_chunks h b"

definition free_next :: "heap \<Rightarrow> byte \<Rightarrow> byte" where
  "free_next h b = h (free_end h b - 1)"

definition free_region :: "heap \<Rightarrow> byte \<Rightarrow> int set" where
  "free_region h b = {uint b * 16 ..< free_end h b}"

definition wf_free :: "heap \<Rightarrow> byte \<Rightarrow> bool" where
  "wf_free h b = (b \<noteq> 0 \<and> 0 < free_chunks h b \<and> free_end h b \<le> 4096)"

text \<open>The blocks met from \<open>x\<close> along the next pointers, up to the sentinel 0.\<close>

fun chain :: "heap \<Rightarrow> byte \<Rightarrow> byte list \<Rightarrow> bool" where
  "chain h x [] = (x = 0)"
| "chain h x (b # bs) = (x = b \<and> wf_free h b \<and> chain h (free_next h b) bs)"

text \<open>
  The same walk as a computation, with the source's own \<open>get_next\<close>: \<open>None\<close>
  when it does not end or a read leaves the arena.
\<close>

partial_function (option) walk :: "heap \<Rightarrow> byte \<Rightarrow> byte list option" where
  "walk h offset =
     (if offset = 0 then Some []
      else (case get_next h (uint offset) of
              Inl e \<Rightarrow> None
            | Inr next \<Rightarrow> Option.bind (walk h next) (\<lambda>bs. Some (offset # bs))))"

declare walk.simps [code]

definition free_list :: "heap \<Rightarrow> byte list option" where
  "free_list h = walk h (h 0)"

definition block_index :: "int \<Rightarrow> byte" where
  "block_index ptr = word_of_int ((ptr - 1) div 16)"

definition live_chunks :: "heap \<Rightarrow> int \<Rightarrow> int" where
  "live_chunks h ptr = uint (h (ptr - 1))"

definition live_region :: "heap \<Rightarrow> int \<Rightarrow> int set" where
  "live_region h ptr = {ptr - 1 ..< ptr - 1 + 16 * live_chunks h ptr}"

definition wf_live :: "heap \<Rightarrow> int \<Rightarrow> bool" where
  "wf_live h ptr =
     (16 \<le> ptr - 1 \<and> (ptr - 1) mod 16 = 0 \<and> 0 < live_chunks h ptr
      \<and> ptr - 1 + 16 * live_chunks h ptr \<le> 4096)"

text \<open>
  The arena that \<open>rdx_free\<close> leaves when the address heads a well-formed allocated
  block, and the arena that the body of \<open>rdx_malloc\<close> leaves when it takes \<open>k\<close>
  chunks of the free block \<open>b\<close>: the writes of the source, in its order.
\<close>

definition freed :: "heap \<Rightarrow> int \<Rightarrow> heap" where
  "freed h p =
     h(p := h (p - 1),
       p - 2 + 16 * live_chunks h p := h 0,
       p - 1 := 0,
       p := h (p - 1),
       0 := block_index p)"

definition unlinked :: "heap \<Rightarrow> byte \<Rightarrow> int \<Rightarrow> heap" where
  "unlinked h b k =
     (let nx = free_next h b;
          h1 = h(0 := nx);
          h2 = (if nx \<noteq> 0 then h1(uint nx * 16 := 0) else h1)
      in h2(uint b * 16 := word_of_int k))"

definition taken :: "heap \<Rightarrow> byte \<Rightarrow> int \<Rightarrow> heap" where
  "taken h b k =
     (if k < free_chunks h b
      then freed ((unlinked h b k)(uint b * 16 + 16 * k := word_of_int (free_chunks h b - k)))
             (uint b * 16 + 16 * k + 1)
      else unlinked h b k)"

text \<open>
  The invariant of the allocator. The free list from \<open>x\<close> is the chain \<open>bs\<close>, without
  repetition; every block on it has previous pointer 0; every held address heads a
  well-formed allocated block; and the byte ranges of all these blocks are pairwise
  disjoint.
\<close>

definition blocks_ok :: "heap \<Rightarrow> byte \<Rightarrow> int set \<Rightarrow> byte list \<Rightarrow> bool" where
  "blocks_ok h x L bs \<longleftrightarrow>
     chain h x bs \<and> distinct bs
     \<and> (\<forall>b\<in>set bs. h (uint b * 16) = 0)
     \<and> (\<forall>p\<in>L. wf_live h p)
     \<and> (\<forall>b\<in>set bs. \<forall>b'\<in>set bs. b \<noteq> b' \<longrightarrow> free_region h b \<inter> free_region h b' = {})
     \<and> (\<forall>b\<in>set bs. \<forall>p\<in>L. free_region h b \<inter> live_region h p = {})
     \<and> (\<forall>p\<in>L. \<forall>q\<in>L. p \<noteq> q \<longrightarrow> live_region h p \<inter> live_region h q = {})"

definition arena_inv :: "heap \<Rightarrow> int set \<Rightarrow> byte list \<Rightarrow> bool" where
  "arena_inv h L bs = blocks_ok h (h 0) L bs"

section \<open>Call sequences\<close>

text \<open>
  A caller's view: the arena and the addresses it holds, one entry for each acquire
  that returned an address not yet released, newest first. Besides calling the allocator
  the caller may write any payload byte of a block it holds. A call outside the contract
  (a negative size, a release of an address not held, a write outside a held payload)
  ends the run as \<open>Contract_broken\<close>.
\<close>

datatype call = Acquire int | Release int | Store int int byte

datatype outcome = Finished heap "int list" | Faulted fault | Diverged | Contract_broken

fun in_contract :: "heap \<Rightarrow> int list \<Rightarrow> call \<Rightarrow> bool" where
  "in_contract h L (Acquire n) = (0 \<le> n)"
| "in_contract h L (Release p) = (p \<in> set L)"
| "in_contract h L (Store p i v) = (p \<in> set L \<and> 0 \<le> i \<and> i < 16 * live_chunks h p - 1)"

fun call_step :: "heap \<Rightarrow> int list \<Rightarrow> call \<Rightarrow> outcome" where
  "call_step h L (Acquire n) =
     (case rdx_malloc h n of
        None \<Rightarrow> Diverged
      | Some (Inl e) \<Rightarrow> Faulted e
      | Some (Inr (h', None)) \<Rightarrow> Finished h' L
      | Some (Inr (h', Some p)) \<Rightarrow> Finished h' (p # L))"
| "call_step h L (Release p) =
     (case rdx_free h p of
        Inl e \<Rightarrow> Faulted e
      | Inr h' \<Rightarrow> Finished h' (remove1 p L))"
| "call_step h L (Store p i v) =
     (case heap_store h (p + i) v of
        Inl e \<Rightarrow> Faulted e
      | Inr h' \<Rightarrow> Finished h' L)"

fun run_from :: "heap \<Rightarrow> int list \<Rightarrow> call list \<Rightarrow> outcome" where
  "run_from h L [] = Finished h L"
| "run_from h L (c # cs) =
     (if in_contract h L c then
        (case call_step h L c of
           Finished h' L' \<Rightarrow> run_from h' L' cs
         | out \<Rightarrow> out)
      else Contract_broken)"

text \<open>A run starts with \<open>init_heap\<close> on an arena of any content, nothing held.\<close>

definition run :: "heap \<Rightarrow> call list \<Rightarrow> outcome" where
  "run h0 cs = run_from (init_heap h0) [] cs"

section \<open>The scenarios of the specification\<close>

text \<open>Scenario A: acquire 16 bytes, release them, acquire 5 bytes.\<close>

definition scenario_A :: "heap \<Rightarrow> (heap \<times> int \<times> heap \<times> int) option" where
  "scenario_A h0 =
     (case rdx_malloc (init_heap h0) 16 of
        Some (Inr (h1, Some P)) \<Rightarrow>
          (case rdx_free h1 P of
             Inr h2 \<Rightarrow>
               (case rdx_malloc h2 5 of
                  Some (Inr (h3, Some Q)) \<Rightarrow> Some (h1, P, h3, Q)
                | _ \<Rightarrow> None)
           | _ \<Rightarrow> None)
      | _ \<Rightarrow> None)"

text \<open>
  Scenario B: acquire \<open>n\<close> bytes of a fresh arena, then one byte more. The result is the
  pair of the two returned pointers.
\<close>

definition scenario_B :: "heap \<Rightarrow> int \<Rightarrow> (int option \<times> int option) option" where
  "scenario_B h0 n =
     (case rdx_malloc (init_heap h0) n of
        Some (Inr (h1, r1)) \<Rightarrow>
          (case rdx_malloc h1 1 of
             Some (Inr (h2, r2)) \<Rightarrow> Some (r1, r2)
           | _ \<Rightarrow> None)
      | _ \<Rightarrow> None)"

text \<open>
  Scenario C: acquire 16 bytes twice, release the first, release the second. The result
  is the two addresses and the free list walked afterwards.
\<close>

definition scenario_C :: "heap \<Rightarrow> (int \<times> int \<times> byte list) option" where
  "scenario_C h0 =
     (case rdx_malloc (init_heap h0) 16 of
        Some (Inr (h1, Some p)) \<Rightarrow>
          (case rdx_malloc h1 16 of
             Some (Inr (h2, Some q)) \<Rightarrow>
               (case rdx_free h2 p of
                  Inr h3 \<Rightarrow>
                    (case rdx_free h3 q of
                       Inr h4 \<Rightarrow> map_option (\<lambda>bs. (p, q, bs)) (free_list h4)
                     | _ \<Rightarrow> None)
                | _ \<Rightarrow> None)
           | _ \<Rightarrow> None)
      | _ \<Rightarrow> None)"

definition free_list_length :: "(int \<times> int \<times> byte list) option \<Rightarrow> nat option" where
  "free_list_length r = map_option (\<lambda>(p, q, bs). length bs) r"

text \<open>
  One acquire on a fresh arena followed by the release of its result: the arena before
  the release, the address, the arena after.
\<close>

definition acquire_release :: "heap \<Rightarrow> int \<Rightarrow> (heap \<times> int \<times> heap) option" where
  "acquire_release h0 n =
     (case rdx_malloc (init_heap h0) n of
        Some (Inr (h1, Some p)) \<Rightarrow>
          (case rdx_free h1 p of
             Inr h2 \<Rightarrow> Some (h1, p, h2)
           | _ \<Rightarrow> None)
      | _ \<Rightarrow> None)"

section \<open>Evaluation\<close>

lemma sdiv_nonneg: "0 \<le> a \<Longrightarrow> 0 < b \<Longrightarrow> (a::int) sdiv b = a div b"
  by (simp add: signed_divide_int_def sgn_if)

lemma smod_nonneg: "0 \<le> a \<Longrightarrow> 0 < b \<Longrightarrow> (a::int) smod b = a mod b"
  by (simp add: signed_modulo_int_def sgn_if)

lemmas arena_consts = HEAP_SIZE_def BLOCK_SIZE_def NO_FREE_BLOCKS_def INT_MIN_def INT_MAX_def

lemmas codec_defs = read_unsigned_def get_block_bytes_def get_next_def get_prev_def
  update_next_def update_prev_def update_size_def heap_load_def heap_store_def uint16_def
  int_result_def

lemmas alloc_evals = rdx_malloc_def round_request_def arena_consts codec_defs sdiv_nonneg
  smod_nonneg init_heap_def find_block.simps take_block_def rdx_free_def Let_def

lemmas view_defs = free_list_def walk.simps free_chunks_def free_end_def free_next_def
  free_region_def wf_free_def block_index_def live_chunks_def live_region_def wf_live_def

section \<open>Rounding of the request\<close>

lemma round_up_16:
  fixes r :: int
  assumes "(r + 1) mod 16 \<noteq> 0"
  shows "r + 1 + (16 - (r + 1) mod 16) = 16 * ((r + 16) div 16)"
proof -
  define q where "q = (r + 1) div 16"
  define m where "m = (r + 1) mod 16"
  have r: "r + 1 = 16 * q + m"
    by (simp add: q_def m_def)
  have "0 \<le> m" and "m \<noteq> 0" and "m < 16"
    using assms by (simp_all add: m_def)
  then have m: "0 < m" "m < 16"
    by simp_all
  have "(r + 16) div 16 = q + 1"
    by (rule int_div_pos_eq [where r = "m - 1"]) (use r m in simp_all)
  moreover have "r + 1 + (16 - m) = 16 * (q + 1)"
    using r by simp
  ultimately show ?thesis
    by (simp only: m_def)
qed

lemma round_up_16_exact:
  fixes r :: int
  assumes "(r + 1) mod 16 = 0"
  shows "r + 1 = 16 * ((r + 16) div 16)"
proof -
  define q where "q = (r + 1) div 16"
  have r: "r + 1 = 16 * q"
    using assms mult_div_mod_eq [of 16 "r + 1"] by (simp add: q_def)
  have "(r + 16) div 16 = q"
    by (rule int_div_pos_eq [where r = 15]) (use r in simp_all)
  with r show ?thesis
    by simp
qed

lemma round_up_16_bounds:
  fixes r :: int
  shows "r + 1 \<le> 16 * ((r + 16) div 16) \<and> 16 * ((r + 16) div 16) \<le> r + 16"
proof (cases "(r + 1) mod 16 = 0")
  case True
  from round_up_16_exact [OF True] show ?thesis
    by linarith
next
  case False
  have "0 \<le> (r + 1) mod 16" "(r + 1) mod 16 < 16"
    by simp_all
  with False round_up_16 [OF False] show ?thesis
    by linarith
qed

lemma round_up_16_least:
  fixes r k :: int
  assumes "16 dvd k" and "r + 1 \<le> k"
  shows "16 * ((r + 16) div 16) \<le> k"
proof -
  from assms(1) obtain j where k: "k = 16 * j" ..
  have "(r + 16) div 16 \<le> (k + 15) div 16"
    using assms(2) by (intro zdiv_mono1) simp_all
  also have "(k + 15) div 16 = j"
    by (rule int_div_pos_eq [where r = 15]) (use k in simp_all)
  finally show ?thesis
    using k by simp
qed

lemma round_request_eq:
  assumes "0 \<le> r" "r \<le> 2147483631"
  shows "round_request r = Inr (16 * ((r + 16) div 16))"
proof -
  define m where "m = 16 * ((r + 16) div 16)"
  have b: "r + 1 \<le> m" "m \<le> r + 16"
    using round_up_16_bounds [of r] by (simp_all add: m_def)
  have 1: "int_result (r + 1) = Inr (r + 1)"
    using assms by (simp add: int_result_def arena_consts)
  have 2: "(r + 1) smod 16 = (r + 1) mod 16"
    using assms by (simp add: smod_nonneg)
  have 3: "m smod 16 = 0"
  proof -
    have "0 \<le> m" using assms b by linarith
    then have "m smod 16 = m mod 16" by (simp add: smod_nonneg)
    also have "\<dots> = 0" by (simp add: m_def)
    finally show ?thesis .
  qed
  have 4: "int_result m = Inr m"
    using assms b by (simp add: int_result_def arena_consts)
  show ?thesis
  proof (cases "(r + 1) mod 16 = 0")
    case True
    then have "r + 1 = m"
      using round_up_16_exact [of r] by (simp add: m_def)
    with 3 have "(r + 1) smod 16 = 0"
      by simp
    then have "round_request r = Inr (r + 1)"
      by (simp only: round_request_def BLOCK_SIZE_def 1 bind_fault.simps simp_thms if_True if_False)
    with \<open>r + 1 = m\<close> show ?thesis
      by (simp only: m_def)
  next
    case False
    have "r + 1 + (16 - (r + 1) mod 16) = m"
      using round_up_16 [OF False] by (simp only: m_def)
    with False show ?thesis
      by (simp only: round_request_def BLOCK_SIZE_def 1 2 3 4 bind_fault.simps simp_thms
            if_True if_False m_def [symmetric])
  qed
qed

text \<open>
  Where the rounding stays inside a 32-bit \<^verbatim>\<open>int\<close>, that is for a request \<open>r\<close> with
  \<open>0 \<le> r \<le> 2147483631\<close>, the length that acquire looks for is the least multiple of
  16 that is at least \<open>r + 1\<close>. A request of no bytes looks for 16 bytes, and on a fresh
  arena it is given the one quantum of bytes 16 to 31.
\<close>

lemma round_request_least_multiple:
  assumes "0 \<le> r" and "r \<le> 2147483631"
  shows "round_request r = Inr (16 * ((r + 16) div 16))
    \<and> 16 dvd 16 * ((r + 16) div 16)
    \<and> r + 1 \<le> 16 * ((r + 16) div 16)
    \<and> (\<forall>k. 16 dvd k \<and> r + 1 \<le> k \<longrightarrow> 16 * ((r + 16) div 16) \<le> k)
    \<and> round_request 0 = Inr 16
    \<and> (\<exists>h'. rdx_malloc (init_heap h0) 0 = Some (Inr (h', Some 17))
          \<and> live_region h' 17 = {16..<32})"
proof (intro conjI allI impI)
  show "round_request r = Inr (16 * ((r + 16) div 16))"
    using assms by (rule round_request_eq)
  show "16 dvd 16 * ((r + 16) div 16)"
    by (rule dvd_triv_left)
  show "r + 1 \<le> 16 * ((r + 16) div 16)"
    using round_up_16_bounds [of r] by (rule conjunct1)
  show "16 * ((r + 16) div 16) \<le> k" if "16 dvd k \<and> r + 1 \<le> k" for k
    using that round_up_16_least [of k r] by (elim conjE)
  show "round_request 0 = Inr 16"
    using round_request_eq [of 0] by simp
  show "\<exists>h'. rdx_malloc (init_heap h0) 0 = Some (Inr (h', Some 17))
          \<and> live_region h' 17 = {16..<32}"
    by (simp add: alloc_evals view_defs)
qed

text \<open>
  The same at the requests 0, 15 and 16: a request of no bytes takes one quantum, the
  header alone.
\<close>

lemma round_request_least_multiple_witness:
  "round_request 0 = Inr 16 \<and> round_request 15 = Inr 16 \<and> round_request 16 = Inr 32"
  using round_request_least_multiple [of 0 zero_heap]
    round_request_least_multiple [of 15 zero_heap]
    round_request_least_multiple [of 16 zero_heap]
  by simp

text \<open>
  C8, evaluated where it fails. The claim asks, of every non-negative request \<open>r\<close>, for
  the least multiple of 16 that is at least \<open>r + 1\<close>. At the largest \<^verbatim>\<open>int\<close> the
  statement \<^verbatim>\<open>bytes++\<close> overflows, and at 2147483632 the addition that rounds up
  overflows: \<open>rdx_malloc\<close> computes no length there, where its own comment promises
  null for a request that cannot be served. The largest request that it does round is
  2147483631.
\<close>

theorem round_request_overflow:
  "round_request 2147483647 = Inl Signed_overflow
   \<and> round_request 2147483632 = Inl Signed_overflow
   \<and> round_request 2147483631 = Inr 2147483632"
  by (simp add: round_request_def arena_consts int_result_def smod_nonneg)

section \<open>The codec on well-formed blocks\<close>

lemma uint_byte_bounds: "0 \<le> uint (b::byte)" "uint (b::byte) < 256" "uint (b::byte) \<le> 255"
  using uint_lt2p [of b] by simp_all

lemma uint_byte_of_int: "0 \<le> k \<Longrightarrow> k < 256 \<Longrightarrow> uint (word_of_int k :: byte) = k"
  by (simp add: uint_word_of_int take_bit_eq_mod)

lemma byte_neq_0_iff: "(b::byte) \<noteq> 0 \<longleftrightarrow> 0 < uint b"
  using uint_byte_bounds(1) [of b] by (auto simp: uint_0_iff less_le)

lemma get_block_bytes_eq: "get_block_bytes h b = Inr (16 * free_chunks h b)"
  using uint_byte_bounds [of b] uint_byte_bounds [of "h (uint b * 16 + 1)"]
  by (simp add: get_block_bytes_def read_unsigned_def uint16_def free_chunks_def arena_consts add.commute)

lemma get_prev_eq: "get_prev h (uint (b::byte)) = Inr (h (uint b * 16))"
  using uint_byte_bounds [of b]
  by (simp add: get_prev_def read_unsigned_def uint16_def arena_consts)

lemma wf_free_bounds:
  assumes "wf_free h b"
  shows "1 \<le> uint b" "1 \<le> free_chunks h b" "free_end h b \<le> 4096"
    "free_end h b = uint b * 16 + 16 * free_chunks h b"
  using assms by (simp_all add: wf_free_def byte_neq_0_iff free_end_def)

lemma get_next_eq: "wf_free h b \<Longrightarrow> get_next h (uint b) = Inr (free_next h b)"
  using wf_free_bounds [of h b]
  by (simp add: get_next_def get_block_bytes_eq read_unsigned_def uint16_def arena_consts
        free_next_def free_end_def algebra_simps)

lemma update_next_eq:
  "wf_free h b \<Longrightarrow> update_next h (uint b) v = Inr (h(free_end h b - 1 := v))"
  using wf_free_bounds [of h b]
  by (simp add: update_next_def get_block_bytes_eq heap_store_def arena_consts
        free_end_def algebra_simps)

lemma update_prev_eq: "update_prev h (uint (b::byte)) v = Inr (h(uint b * 16 := v))"
  using uint_byte_bounds [of b]
  by (simp add: update_prev_def heap_store_def arena_consts)

lemma update_size_eq: "update_size h (uint (b::byte)) v = Inr (h(uint b * 16 + 1 := v))"
  using uint_byte_bounds [of b]
  by (simp add: update_size_def heap_store_def arena_consts add.commute)

section \<open>What release and acquire write\<close>

lemma wf_live_bounds:
  assumes "wf_live h p"
  shows "17 \<le> p" "(p - 1) mod 16 = 0" "1 \<le> live_chunks h p" "p - 1 + 16 * live_chunks h p \<le> 4096"
    "p \<le> 4081"
  using assms by (simp_all add: wf_live_def)

lemma block_index_times_16:
  assumes "17 \<le> p" "p \<le> 4081" "(p - 1) mod 16 = 0"
  shows "uint (block_index p) * 16 = p - 1" "1 \<le> uint (block_index p)"
proof -
  have "0 \<le> (p - 1) div 16" "(p - 1) div 16 < 256" "1 \<le> (p - 1) div 16"
    using assms by simp_all
  then have u: "uint (block_index p) = (p - 1) div 16"
    by (simp add: block_index_def uint_byte_of_int)
  show "uint (block_index p) * 16 = p - 1"
    using assms(3) div_mult_mod_eq [of "p - 1" 16] by (simp add: u)
  show "1 \<le> uint (block_index p)"
    using \<open>1 \<le> (p - 1) div 16\<close> by (simp add: u)
qed

lemma rdx_free_eq:
  assumes "wf_live h p"
  shows "rdx_free h p = Inr (freed h p)"
proof -
  note lb = wf_live_bounds [OF assms]
  note bi = block_index_times_16 [OF lb(1) lb(5) lb(2)]
  define b where "b = block_index p"
  define c where "c = h (p - 1)"
  have c: "uint c = live_chunks h p"
    by (simp add: c_def live_chunks_def)
  have sd: "word_of_int ((p - 1) sdiv 16) = b"
    using lb by (simp add: sdiv_nonneg b_def block_index_def)
  have b16: "uint b * 16 = p - 1"
    using bi by (simp add: b_def)
  have wf1: "wf_free (h(p := c)) b"
    using lb bi b16 c by (simp add: wf_free_def byte_neq_0_iff free_end_def free_chunks_def b_def)
  have fe: "free_end (h(p := c)) b - 1 = p - 2 + 16 * live_chunks h p"
    using b16 c by (simp add: free_end_def free_chunks_def)
  have ld: "heap_load h (p - 1) = Inr c"
    using lb by (simp add: heap_load_def arena_consts c_def)
  have st: "heap_store h (uint b * BLOCK_SIZE + 1) c = Inr (h(p := c))"
    using lb b16 by (simp add: heap_store_def arena_consts)
  have rd: "read_unsigned (h(p := c)) 0 = Inr (h 0)"
    using lb by (simp add: read_unsigned_def arena_consts)
  show ?thesis
    unfolding rdx_free_def
    apply (simp only: ld bind_fault.simps Let_def sd st rd update_next_eq [OF wf1] fe
        update_prev_eq update_size_eq b16)
    apply (simp add: freed_def b_def c_def)
    done
qed

lemma take_block_eq:
  assumes wf: "wf_free h b"
    and prev0: "h (uint b * 16) = 0"
    and k: "1 \<le> k" "k \<le> free_chunks h b"
  shows "take_block h (16 * k) b (16 * free_chunks h b) = Inr (taken h b k, Some (uint b * 16 + 1))"
proof -
  note fb = wf_free_bounds [OF wf]
  note ub = uint_byte_bounds [of b]
  define nx where "nx = free_next h b"
  define h3 where "h3 = unlinked h b k"
  have 1: "(if (0::byte) \<noteq> 0 then update_next h (uint (0::byte)) nx
           else if nx \<noteq> 0 then Inr (h(0 := nx)) else Inr (h(0 := NO_FREE_BLOCKS)))
         = Inr (h(0 := nx))"
    by (simp add: arena_consts)
  have 2: "(if nx \<noteq> 0 then update_prev (h(0 := nx)) (uint nx) 0 else Inr (h(0 := nx)))
         = Inr (if nx \<noteq> 0 then (h(0 := nx))(uint nx * 16 := 0) else h(0 := nx))"
    by (simp add: update_prev_eq)
  have 3: "heap_store h2 (uint b * BLOCK_SIZE) (word_of_int (16 * k sdiv 16))
         = Inr (h2(uint b * 16 := word_of_int k))" for h2
    using k ub by (simp add: heap_store_def arena_consts sdiv_nonneg)
  have h3: "(if nx \<noteq> 0 then (h(0 := nx))(uint nx * 16 := 0) else h(0 := nx))
               (uint b * 16 := word_of_int k) = h3"
    by (simp add: h3_def unlinked_def nx_def Let_def)
  show ?thesis
  proof (cases "k < free_chunks h b")
    case True
    define c where "c = free_chunks h b - k"
    define p where "p = uint b * 16 + 16 * k + 1"
    have cb: "0 < c" "c < 256"
      using True k uint_byte_bounds [of "h (uint b * 16 + 1)"]
      by (simp_all add: c_def free_chunks_def)
    have 4: "int_result (16 * free_chunks h b - 16 * k) = Inr (16 * c)"
      using cb by (simp add: int_result_def arena_consts c_def)
    have 5: "(16 * c) smod BLOCK_SIZE = 0" "word_of_int ((16 * c) sdiv 16) = (word_of_int c :: byte)"
      using cb by (simp_all add: smod_nonneg sdiv_nonneg arena_consts)
    have 6: "heap_store h3 (uint b * BLOCK_SIZE + 16 * k) (word_of_int c)
         = Inr (h3(uint b * 16 + 16 * k := word_of_int c))"
      using fb k True by (simp add: heap_store_def arena_consts)
    have e: "uint b * 16 + 16 * k + 16 * c = free_end h b"
      by (simp add: c_def fb(4))
    have wl: "wf_live (h3(uint b * 16 + 16 * k := word_of_int c)) p"
      using fb(1,3) k e cb by (simp add: wf_live_def p_def live_chunks_def uint_byte_of_int)
    have tk: "taken h b k = freed (h3(uint b * 16 + 16 * k := word_of_int c)) p"
      using True by (simp add: taken_def h3_def c_def p_def)
    show ?thesis
      unfolding take_block_def
      apply (simp only: get_prev_eq prev0 get_next_eq [OF wf] bind_fault.simps
          nx_def [symmetric] 1 2 3 h3)
      using True k
      apply (simp add: 4 5 6 Let_def)
      apply (simp add: arena_consts p_def [symmetric] rdx_free_eq [OF wl] tk)
      done
  next
    case False
    with k have "k = free_chunks h b" by simp
    then have tk: "taken h b k = h3"
      by (simp add: taken_def h3_def)
    show ?thesis
      unfolding take_block_def
      apply (simp only: get_prev_eq prev0 get_next_eq [OF wf] bind_fault.simps
          nx_def [symmetric] 1 2 3 h3)
      using False
      apply (simp add: tk [symmetric] arena_consts)
      done
  qed
qed

lemma find_block_none:
  "chain h x bs \<Longrightarrow> \<forall>b\<in>set bs. 16 * free_chunks h b < m
     \<Longrightarrow> find_block h m x = Some (Inr (h, None))"
proof (induction bs arbitrary: x)
  case Nil
  then show ?case
    by (subst find_block.simps) simp
next
  case (Cons b bs)
  from Cons.prems have x: "x = b" "b \<noteq> 0" and wf: "wf_free h b"
    and rest: "chain h (free_next h b) bs"
    by (simp_all add: wf_free_def)
  from Cons.prems have small: "\<not> m \<le> 16 * free_chunks h b"
    by simp
  have "find_block h m b = find_block h m (free_next h b)"
    by (subst find_block.simps) (simp add: x get_block_bytes_eq small get_next_eq [OF wf])
  also have "\<dots> = Some (Inr (h, None))"
    using Cons.prems by (intro Cons.IH [OF rest]) simp
  finally show ?case
    by (simp add: x)
qed

lemma find_block_found:
  "chain h x (pre @ b # post) \<Longrightarrow> \<forall>a\<in>set pre. 16 * free_chunks h a < m
     \<Longrightarrow> m \<le> 16 * free_chunks h b
     \<Longrightarrow> find_block h m x = Some (take_block h m b (16 * free_chunks h b))"
proof (induction pre arbitrary: x)
  case Nil
  then have "x = b" "b \<noteq> 0"
    by (simp_all add: wf_free_def)
  with Nil.prems(3) show ?case
    by (subst find_block.simps) (simp add: get_block_bytes_eq)
next
  case (Cons a pre)
  from Cons.prems have x: "x = a" "a \<noteq> 0" and wf: "wf_free h a"
    and rest: "chain h (free_next h a) (pre @ b # post)"
    by (simp_all add: wf_free_def)
  from Cons.prems have small: "\<not> m \<le> 16 * free_chunks h a"
    by simp
  have "find_block h m a = find_block h m (free_next h a)"
    by (subst find_block.simps) (simp add: x get_block_bytes_eq small get_next_eq [OF wf])
  also have "\<dots> = Some (take_block h m b (16 * free_chunks h b))"
    using Cons.prems by (intro Cons.IH [OF rest]) simp_all
  finally show ?case
    by (simp add: x)
qed

lemma read_head: "read_unsigned h 0 = Inr (h 0)"
  by (simp add: read_unsigned_def arena_consts)

section \<open>Frames\<close>

text \<open>
  A block's fields lie inside its own bytes, so writes elsewhere leave it as it was; the
  invariant is kept when blocks are dropped, and when a block is added whose bytes are
  disjoint from the others.
\<close>

lemma free_region_members:
  assumes "wf_free h b"
  shows "uint b * 16 \<in> free_region h b" "uint b * 16 + 1 \<in> free_region h b"
    "free_end h b - 1 \<in> free_region h b" "0 \<notin> free_region h b"
  using wf_free_bounds [OF assms] by (simp_all add: free_region_def)

lemma live_region_members:
  assumes "wf_live h p"
  shows "p - 1 \<in> live_region h p" "0 \<notin> live_region h p"
  using wf_live_bounds [OF assms] by (simp_all add: live_region_def)

lemma wf_free_frame:
  assumes "wf_free h b" and "\<forall>i\<in>free_region h b. h' i = h i"
  shows "wf_free h' b" "free_chunks h' b = free_chunks h b" "free_end h' b = free_end h b"
    "free_next h' b = free_next h b" "free_region h' b = free_region h b"
    "h' (uint b * 16) = h (uint b * 16)"
proof -
  note m = free_region_members [OF assms(1)]
  show c: "free_chunks h' b = free_chunks h b"
    using assms(2) m(2) by (simp add: free_chunks_def)
  then show e: "free_end h' b = free_end h b"
    by (simp add: free_end_def)
  then show "free_next h' b = free_next h b"
    using assms(2) m(3) by (simp add: free_next_def)
  show "wf_free h' b"
    using assms(1) c e by (simp add: wf_free_def)
  show "free_region h' b = free_region h b"
    using e by (simp add: free_region_def)
  show "h' (uint b * 16) = h (uint b * 16)"
    using assms(2) m(1) by simp
qed

lemma wf_live_frame:
  assumes "wf_live h p" and "h' (p - 1) = h (p - 1)"
  shows "wf_live h' p" "live_chunks h' p = live_chunks h p" "live_region h' p = live_region h p"
  using assms by (simp_all add: wf_live_def live_chunks_def live_region_def)

lemma chain_frame:
  assumes "chain h x bs" and "\<And>b i. b \<in> set bs \<Longrightarrow> i \<in> free_region h b \<Longrightarrow> h' i = h i"
  shows "chain h' x bs"
  using assms
proof (induction bs arbitrary: x)
  case Nil
  then show ?case by simp
next
  case (Cons b bs)
  from Cons.prems(1) have x: "x = b" and wf: "wf_free h b" and ch: "chain h (free_next h b) bs"
    by simp_all
  have fr: "\<forall>i\<in>free_region h b. h' i = h i"
    using Cons.prems(2) [of b] by simp
  have "chain h' (free_next h b) bs"
    using ch
  proof (rule Cons.IH)
    show "h' i = h i" if "a \<in> set bs" "i \<in> free_region h a" for a i
      using that Cons.prems(2) [of a i] by simp
  qed
  with x wf_free_frame(1,4) [OF wf fr] show ?case
    by simp
qed

lemma chain_wf: "chain h x bs \<Longrightarrow> b \<in> set bs \<Longrightarrow> wf_free h b"
  by (induction bs arbitrary: x) auto

lemma chain_append: "chain h x (pre @ b # post) \<Longrightarrow> chain h (free_next h b) post"
  by (induction pre arbitrary: x) auto

lemma chain_next_in:
  "chain h x bs \<Longrightarrow> x \<noteq> 0 \<Longrightarrow> x \<in> set bs"
  by (cases bs) auto

lemma blocks_okD:
  assumes "blocks_ok h x L bs"
  shows "chain h x bs" "distinct bs"
    and "\<And>b. b \<in> set bs \<Longrightarrow> h (uint b * 16) = 0"
    and "\<And>p. p \<in> L \<Longrightarrow> wf_live h p"
    and "\<And>b b'. b \<in> set bs \<Longrightarrow> b' \<in> set bs \<Longrightarrow> b \<noteq> b'
           \<Longrightarrow> free_region h b \<inter> free_region h b' = {}"
    and "\<And>b p. b \<in> set bs \<Longrightarrow> p \<in> L \<Longrightarrow> free_region h b \<inter> live_region h p = {}"
    and "\<And>p q. p \<in> L \<Longrightarrow> q \<in> L \<Longrightarrow> p \<noteq> q \<Longrightarrow> live_region h p \<inter> live_region h q = {}"
  using assms unfolding blocks_ok_def by simp_all

lemma blocks_okI:
  assumes "chain h x bs" "distinct bs"
    and "\<And>b. b \<in> set bs \<Longrightarrow> h (uint b * 16) = 0"
    and "\<And>p. p \<in> L \<Longrightarrow> wf_live h p"
    and "\<And>b b'. b \<in> set bs \<Longrightarrow> b' \<in> set bs \<Longrightarrow> b \<noteq> b'
           \<Longrightarrow> free_region h b \<inter> free_region h b' = {}"
    and "\<And>b p. b \<in> set bs \<Longrightarrow> p \<in> L \<Longrightarrow> free_region h b \<inter> live_region h p = {}"
    and "\<And>p q. p \<in> L \<Longrightarrow> q \<in> L \<Longrightarrow> p \<noteq> q \<Longrightarrow> live_region h p \<inter> live_region h q = {}"
  shows "blocks_ok h x L bs"
  using assms unfolding blocks_ok_def by simp

lemma blocks_ok_frame:
  assumes ok: "blocks_ok h x L bs"
    and fr: "\<And>b i. b \<in> set bs \<Longrightarrow> i \<in> free_region h b \<Longrightarrow> h' i = h i"
    and lv: "\<And>p. p \<in> L \<Longrightarrow> h' (p - 1) = h (p - 1)"
  shows "blocks_ok h' x L bs"
proof -
  note D = blocks_okD [OF ok]
  have wf: "wf_free h b" if "b \<in> set bs" for b
    using chain_wf [OF D(1) that] .
  have F: "free_region h' b = free_region h b" "h' (uint b * 16) = h (uint b * 16)"
    if "b \<in> set bs" for b
  proof -
    have "\<forall>i\<in>free_region h b. h' i = h i"
      using fr [OF that] by blast
    from wf_free_frame(5,6) [OF wf [OF that] this]
    show "free_region h' b = free_region h b" "h' (uint b * 16) = h (uint b * 16)" .
  qed
  have Lf: "wf_live h' p" "live_region h' p = live_region h p" if "p \<in> L" for p
    using wf_live_frame(1,3) [of h p h'] D(4) [OF that] lv [OF that] by simp_all
  show ?thesis
  proof (rule blocks_okI)
    show "chain h' x bs"
      using D(1) fr by (rule chain_frame)
    show "distinct bs"
      by (rule D(2))
    show "h' (uint b * 16) = 0" if "b \<in> set bs" for b
      using D(3) [OF that] F(2) [OF that] by simp
    show "wf_live h' p" if "p \<in> L" for p
      using Lf(1) [OF that] .
    show "free_region h' b \<inter> free_region h' b' = {}"
      if "b \<in> set bs" "b' \<in> set bs" "b \<noteq> b'" for b b'
      using D(5) [OF that] F(1) [OF that(1)] F(1) [OF that(2)] by simp
    show "free_region h' b \<inter> live_region h' p = {}" if "b \<in> set bs" "p \<in> L" for b p
      using D(6) [OF that] F(1) [OF that(1)] Lf(2) [OF that(2)] by simp
    show "live_region h' p \<inter> live_region h' q = {}" if "p \<in> L" "q \<in> L" "p \<noteq> q" for p q
      using D(7) [OF that] Lf(2) [OF that(1)] Lf(2) [OF that(2)] by simp
  qed
qed

lemma blocks_ok_shrink:
  assumes ok: "blocks_ok h x L bs"
    and ch: "chain h y bs'" and sub: "set bs' \<subseteq> set bs" and d: "distinct bs'"
    and L: "L' \<subseteq> L"
  shows "blocks_ok h y L' bs'"
proof -
  note D = blocks_okD [OF ok]
  have s: "b \<in> set bs" if "b \<in> set bs'" for b
    using sub that by (rule subsetD)
  have l: "p \<in> L" if "p \<in> L'" for p
    using L that by (rule subsetD)
  show ?thesis
  proof (rule blocks_okI)
    show "chain h y bs'" by (rule ch)
    show "distinct bs'" by (rule d)
    show "h (uint b * 16) = 0" if "b \<in> set bs'" for b
      using D(3) [OF s [OF that]] .
    show "wf_live h p" if "p \<in> L'" for p
      using D(4) [OF l [OF that]] .
    show "free_region h b \<inter> free_region h b' = {}"
      if "b \<in> set bs'" "b' \<in> set bs'" "b \<noteq> b'" for b b'
      using D(5) [OF s [OF that(1)] s [OF that(2)] that(3)] .
    show "free_region h b \<inter> live_region h p = {}" if "b \<in> set bs'" "p \<in> L'" for b p
      using D(6) [OF s [OF that(1)] l [OF that(2)]] .
    show "live_region h p \<inter> live_region h q = {}" if "p \<in> L'" "q \<in> L'" "p \<noteq> q" for p q
      using D(7) [OF l [OF that(1)] l [OF that(2)] that(3)] .
  qed
qed

lemma blocks_ok_add_live:
  assumes ok: "blocks_ok h x L bs"
    and wl: "wf_live h p"
    and fr: "\<And>b. b \<in> set bs \<Longrightarrow> free_region h b \<inter> live_region h p = {}"
    and lv: "\<And>q. q \<in> L \<Longrightarrow> q \<noteq> p \<Longrightarrow> live_region h q \<inter> live_region h p = {}"
  shows "blocks_ok h x (insert p L) bs"
proof -
  note D = blocks_okD [OF ok]
  show ?thesis
  proof (rule blocks_okI)
    show "chain h x bs" by (rule D(1))
    show "distinct bs" by (rule D(2))
    show "h (uint b * 16) = 0" if "b \<in> set bs" for b
      using D(3) [OF that] .
    show "wf_live h q" if "q \<in> insert p L" for q
      using that wl D(4) by (cases "q = p") simp_all
    show "free_region h b \<inter> free_region h b' = {}"
      if "b \<in> set bs" "b' \<in> set bs" "b \<noteq> b'" for b b'
      using D(5) [OF that] .
    show "free_region h b \<inter> live_region h q = {}" if "b \<in> set bs" "q \<in> insert p L" for b q
      using that fr [OF that(1)] D(6) [OF that(1)] by (cases "q = p") simp_all
    show "live_region h q \<inter> live_region h r = {}"
      if "q \<in> insert p L" "r \<in> insert p L" "q \<noteq> r" for q r
    proof (cases "q = p")
      case True
      with that have "r \<in> L" "r \<noteq> p" by auto
      from lv [OF this] True show ?thesis by (simp add: Int_commute)
    next
      case False
      with that have q: "q \<in> L" by simp
      show ?thesis
      proof (cases "r = p")
        case True
        from lv [OF q False] True show ?thesis by simp
      next
        case False
        with that have "r \<in> L" by simp
        from D(7) [OF q this that(3)] show ?thesis .
      qed
    qed
  qed
qed

lemma blocks_ok_push_free:
  assumes ok: "blocks_ok h x L bs"
    and wf: "wf_free h b" and nx: "free_next h b = x" and pv: "h (uint b * 16) = 0"
    and fr: "\<And>b'. b' \<in> set bs \<Longrightarrow> free_region h b \<inter> free_region h b' = {}"
    and lv: "\<And>p. p \<in> L \<Longrightarrow> free_region h b \<inter> live_region h p = {}"
  shows "blocks_ok h b L (b # bs)"
proof -
  note D = blocks_okD [OF ok]
  have nin: "b \<notin> set bs"
  proof
    assume "b \<in> set bs"
    from fr [OF this] free_region_members(1) [OF wf] show False by simp
  qed
  show ?thesis
  proof (rule blocks_okI)
    show "chain h b (b # bs)"
      using D(1) wf nx by simp
    show "distinct (b # bs)"
      using D(2) nin by simp
    show "h (uint a * 16) = 0" if "a \<in> set (b # bs)" for a
      using that pv D(3) by (cases "a = b") simp_all
    show "wf_live h p" if "p \<in> L" for p
      using D(4) [OF that] .
    show "free_region h a \<inter> free_region h a' = {}"
      if "a \<in> set (b # bs)" "a' \<in> set (b # bs)" "a \<noteq> a'" for a a'
    proof (cases "a = b")
      case True
      with that have "a' \<in> set bs" by auto
      from fr [OF this] True show ?thesis by simp
    next
      case False
      with that have a: "a \<in> set bs" by simp
      show ?thesis
      proof (cases "a' = b")
        case True
        from fr [OF a] True show ?thesis by (simp add: Int_commute)
      next
        case False
        with that have "a' \<in> set bs" by simp
        from D(5) [OF a this that(3)] show ?thesis .
      qed
    qed
    show "free_region h a \<inter> live_region h p = {}" if "a \<in> set (b # bs)" "p \<in> L" for a p
      using that lv [OF that(2)] D(6) [OF _ that(2)] by (cases "a = b") simp_all
    show "live_region h p \<inter> live_region h q = {}" if "p \<in> L" "q \<in> L" "p \<noteq> q" for p q
      using D(7) [OF that] .
  qed
qed

section \<open>Release keeps the invariant\<close>

lemma freed_frame:
  assumes "wf_live h p" and "i \<notin> live_region h p" and "i \<noteq> 0"
  shows "freed h p i = h i"
proof -
  note lb = wf_live_bounds [OF assms(1)]
  have "i < p - 1 \<or> p - 1 + 16 * live_chunks h p \<le> i"
    using assms(2) by (auto simp: live_region_def)
  with lb have "i \<noteq> p" "i \<noteq> p - 1" "i \<noteq> p - 2 + 16 * live_chunks h p"
    by linarith+
  with assms(3) show ?thesis
    by (simp add: freed_def)
qed

lemma freed_block:
  assumes "wf_live h p"
  defines "b \<equiv> block_index p"
  shows "freed h p 0 = b" "wf_free (freed h p) b" "free_next (freed h p) b = h 0"
    "freed h p (uint b * 16) = 0" "free_region (freed h p) b = live_region h p"
    "free_chunks (freed h p) b = live_chunks h p"
proof -
  note lb = wf_live_bounds [OF assms(1)]
  note bi = block_index_times_16 [OF lb(1) lb(5) lb(2)]
  have b16: "uint b * 16 = p - 1"
    using bi by (simp add: b_def)
  show "freed h p 0 = b"
    by (simp add: freed_def b_def)
  show c: "free_chunks (freed h p) b = live_chunks h p"
    using lb by (simp add: free_chunks_def b16 freed_def live_chunks_def)
  then have e: "free_end (freed h p) b = p - 1 + 16 * live_chunks h p"
    by (simp add: free_end_def b16)
  show "wf_free (freed h p) b"
    using lb bi c e by (simp add: wf_free_def byte_neq_0_iff b_def)
  show "free_next (freed h p) b = h 0"
    using lb by (simp add: free_next_def e) (simp add: freed_def)
  show "freed h p (uint b * 16) = 0"
    using lb by (simp add: b16 freed_def)
  show "free_region (freed h p) b = live_region h p"
    by (simp add: free_region_def e b16 live_region_def)
qed

lemma release_inv:
  assumes inv: "arena_inv h L bs" and p: "p \<in> L"
  shows "arena_inv (freed h p) (L - {p}) (block_index p # bs)"
proof -
  from inv have ok: "blocks_ok h (h 0) L bs"
    by (simp add: arena_inv_def)
  note D = blocks_okD [OF ok]
  have wl: "wf_live h p"
    using D(4) [OF p] .
  note fb = freed_block [OF wl]
  define h' where "h' = freed h p"
  have "blocks_ok h (h 0) (L - {p}) bs"
    using ok D(1) _ D(2) by (rule blocks_ok_shrink) simp_all
  then have ok': "blocks_ok h' (h 0) (L - {p}) bs"
  proof (rule blocks_ok_frame)
    show "h' i = h i" if "b \<in> set bs" "i \<in> free_region h b" for b i
    proof -
      have "i \<notin> live_region h p"
        using D(6) [OF that(1) p] that(2) by blast
      moreover have "i \<noteq> 0"
        using free_region_members(4) [OF chain_wf [OF D(1) that(1)]] that(2) by blast
      ultimately show ?thesis
        unfolding h'_def by (rule freed_frame [OF wl])
    qed
    show "h' (q - 1) = h (q - 1)" if "q \<in> L - {p}" for q
    proof -
      from that have q: "q \<in> L" "q \<noteq> p" by simp_all
      note m = live_region_members [OF D(4) [OF q(1)]]
      have "q - 1 \<notin> live_region h p"
        using D(7) [OF q(1) p q(2)] m(1) by blast
      moreover have "q - 1 \<noteq> 0"
        using m by metis
      ultimately show ?thesis
        unfolding h'_def by (rule freed_frame [OF wl])
    qed
  qed
  have R: "free_region h' b = free_region h b" if "b \<in> set bs" for b
  proof -
    have "\<forall>i\<in>free_region h b. h' i = h i"
    proof
      fix i assume i: "i \<in> free_region h b"
      have "i \<notin> live_region h p"
        using D(6) [OF that p] i by blast
      moreover have "i \<noteq> 0"
        using free_region_members(4) [OF chain_wf [OF D(1) that]] i by blast
      ultimately show "h' i = h i"
        unfolding h'_def by (rule freed_frame [OF wl])
    qed
    from wf_free_frame(5) [OF chain_wf [OF D(1) that] this] show ?thesis .
  qed
  have Rl: "live_region h' q = live_region h q" if "q \<in> L" "q \<noteq> p" for q
  proof -
    note m = live_region_members [OF D(4) [OF that(1)]]
    have "q - 1 \<notin> live_region h p"
      using D(7) [OF that(1) p that(2)] m(1) by blast
    moreover have "q - 1 \<noteq> 0"
      using m by metis
    ultimately have "h' (q - 1) = h (q - 1)"
      unfolding h'_def by (rule freed_frame [OF wl])
    then show ?thesis
      by (simp add: live_region_def live_chunks_def)
  qed
  have "blocks_ok h' (block_index p) (L - {p}) (block_index p # bs)"
    using ok'
  proof (rule blocks_ok_push_free)
    show "wf_free h' (block_index p)"
      unfolding h'_def by (rule fb(2))
    show "free_next h' (block_index p) = h 0"
      unfolding h'_def by (rule fb(3))
    show "h' (uint (block_index p) * 16) = 0"
      unfolding h'_def by (rule fb(4))
    show "free_region h' (block_index p) \<inter> free_region h' b' = {}" if "b' \<in> set bs" for b'
      using D(6) [OF that p] R [OF that] fb(5) by (simp add: h'_def Int_commute)
    show "free_region h' (block_index p) \<inter> live_region h' q = {}" if "q \<in> L - {p}" for q
    proof -
      from that have q: "q \<in> L" "q \<noteq> p" by simp_all
      from D(7) [OF p q(1)] q(2) Rl [OF q] fb(5) show ?thesis
        by (simp add: h'_def)
    qed
  qed
  then show ?thesis
    using fb(1) by (simp add: arena_inv_def h'_def)
qed

section \<open>Acquire keeps the invariant\<close>

lemma unlinked_eq:
  assumes "free_next h b \<noteq> 0 \<Longrightarrow> h (uint (free_next h b) * 16) = 0"
  shows "unlinked h b k = h(0 := free_next h b, uint b * 16 := word_of_int k)"
proof (cases "free_next h b = 0")
  case True
  then show ?thesis
    by (simp add: unlinked_def)
next
  case False
  then have "uint (free_next h b) * 16 \<noteq> 0"
    by (simp add: byte_neq_0_iff)
  moreover have "h (uint (free_next h b) * 16) = 0"
    using False by (rule assms)
  ultimately have "(h(0 := free_next h b))(uint (free_next h b) * 16 := 0) = h(0 := free_next h b)"
    by (simp add: fun_eq_iff)
  with False show ?thesis
    by (simp add: unlinked_def Let_def)
qed

lemma taken_facts:
  assumes wf: "wf_free h b" and k: "1 \<le> k" "k \<le> free_chunks h b"
    and nx: "free_next h b \<noteq> 0 \<longrightarrow> h (uint (free_next h b) * 16) = 0"
  defines "T \<equiv> taken h b k"
  defines "p \<equiv> uint b * 16 + 1"
  shows taken_frame: "\<And>i. i \<notin> free_region h b \<Longrightarrow> i \<noteq> 0 \<Longrightarrow> T i = h i"
    and taken_live: "wf_live T p" "live_region T p = {uint b * 16 ..< uint b * 16 + 16 * k}"
    and taken_all: "\<not> k < free_chunks h b \<Longrightarrow> T 0 = free_next h b"
    and taken_rest: "k < free_chunks h b \<Longrightarrow>
          T 0 = block_index (uint b * 16 + 16 * k + 1)
          \<and> wf_free T (block_index (uint b * 16 + 16 * k + 1))
          \<and> free_next T (block_index (uint b * 16 + 16 * k + 1)) = free_next h b
          \<and> T (uint (block_index (uint b * 16 + 16 * k + 1)) * 16) = 0
          \<and> free_region T (block_index (uint b * 16 + 16 * k + 1))
              = {uint b * 16 + 16 * k ..< free_end h b}"
proof -
  note fb = wf_free_bounds [OF wf]
  note ub = uint_byte_bounds [of b]
  define K :: byte where "K = word_of_int k"
  define U where "U = unlinked h b k"
  have kb: "k < 256"
    using k uint_byte_bounds [of "h (uint b * 16 + 1)"] by (simp add: free_chunks_def)
  have K: "uint K = k"
    using k kb by (simp add: K_def uint_byte_of_int)
  have U: "U = h(0 := free_next h b, uint b * 16 := K)"
    unfolding U_def K_def using nx by (intro unlinked_eq) simp
  have U0: "U 0 = free_next h b" and Ub: "U (uint b * 16) = K"
    and Uf: "\<And>i. i \<noteq> 0 \<Longrightarrow> i \<noteq> uint b * 16 \<Longrightarrow> U i = h i"
    using fb by (simp_all add: U)
  have R: "i < uint b * 16 \<or> free_end h b \<le> i" "i \<noteq> uint b * 16"
    if "i \<notin> free_region h b" for i
    using that free_region_members(1) [OF wf] by (auto simp: free_region_def)
  show fr: "T i = h i" if "i \<notin> free_region h b" "i \<noteq> 0" for i
  proof (cases "k < free_chunks h b")
    case False
    then have "T = U" by (simp add: T_def taken_def U_def)
    with R [OF that(1)] fb that(2) show ?thesis
      by (simp add: U)
  next
    case True
    define c where "c = free_chunks h b - k"
    define q where "q = uint b * 16 + 16 * k + 1"
    define h4 where "h4 = U(uint b * 16 + 16 * k := word_of_int c)"
    have cb: "0 < c" "c < 256"
      using True k uint_byte_bounds [of "h (uint b * 16 + 1)"]
      by (simp_all add: c_def free_chunks_def)
    have e: "uint b * 16 + 16 * k + 16 * c = free_end h b"
      by (simp add: c_def fb(4))
    have wl: "wf_live h4 q"
      using fb(1,3) k e cb by (simp add: wf_live_def q_def live_chunks_def uint_byte_of_int h4_def)
    have lr: "live_region h4 q = {uint b * 16 + 16 * k ..< free_end h b}"
      using cb e by (simp add: live_region_def q_def live_chunks_def h4_def uint_byte_of_int)
    have T: "T = freed h4 q"
      using True by (simp add: T_def taken_def U_def c_def q_def h4_def)
    from R(1) [OF that(1)] k have "i \<notin> live_region h4 q"
      by (auto simp: lr)
    then have "T i = h4 i"
      unfolding T using that(2) by (intro freed_frame [OF wl])
    also have "\<dots> = h i"
    proof -
      have "i \<noteq> uint b * 16 + 16 * k"
        using R(1) [OF that(1)] k True fb(4) by linarith
      with R(2) [OF that(1)] that(2) show ?thesis
        by (simp add: h4_def U)
    qed
    finally show ?thesis .
  qed
  have Tb: "T (uint b * 16) = K"
  proof (cases "k < free_chunks h b")
    case False
    then have "T = U" by (simp add: T_def taken_def U_def)
    then show ?thesis by (simp add: Ub)
  next
    case True
    define c where "c = free_chunks h b - k"
    define q where "q = uint b * 16 + 16 * k + 1"
    define h4 where "h4 = U(uint b * 16 + 16 * k := word_of_int c)"
    have cb: "0 < c" "c < 256"
      using True k uint_byte_bounds [of "h (uint b * 16 + 1)"]
      by (simp_all add: c_def free_chunks_def)
    have e: "uint b * 16 + 16 * k + 16 * c = free_end h b"
      by (simp add: c_def fb(4))
    have wl: "wf_live h4 q"
      using fb(1,3) k e cb by (simp add: wf_live_def q_def live_chunks_def uint_byte_of_int h4_def)
    have lr: "live_region h4 q = {uint b * 16 + 16 * k ..< free_end h b}"
      using cb e by (simp add: live_region_def q_def live_chunks_def h4_def uint_byte_of_int)
    have T: "T = freed h4 q"
      using True by (simp add: T_def taken_def U_def c_def q_def h4_def)
    have "uint b * 16 \<notin> live_region h4 q" "uint b * 16 \<noteq> 0"
      using k fb by (simp_all add: lr)
    then have "T (uint b * 16) = h4 (uint b * 16)"
      unfolding T by (intro freed_frame [OF wl])
    also have "\<dots> = K"
      using k by (simp add: h4_def Ub)
    finally show ?thesis .
  qed
  show "wf_live T p"
    using fb k ub K by (simp add: wf_live_def p_def live_chunks_def Tb)
  show "live_region T p = {uint b * 16 ..< uint b * 16 + 16 * k}"
    using K by (simp add: live_region_def p_def live_chunks_def Tb)
  show "T 0 = free_next h b" if "\<not> k < free_chunks h b"
    using that by (simp add: T_def taken_def U_def [symmetric] U0)
  show "T 0 = block_index (uint b * 16 + 16 * k + 1)
          \<and> wf_free T (block_index (uint b * 16 + 16 * k + 1))
          \<and> free_next T (block_index (uint b * 16 + 16 * k + 1)) = free_next h b
          \<and> T (uint (block_index (uint b * 16 + 16 * k + 1)) * 16) = 0
          \<and> free_region T (block_index (uint b * 16 + 16 * k + 1))
              = {uint b * 16 + 16 * k ..< free_end h b}"
    if lt: "k < free_chunks h b"
  proof -
    define c where "c = free_chunks h b - k"
    define q where "q = uint b * 16 + 16 * k + 1"
    define h4 where "h4 = U(uint b * 16 + 16 * k := word_of_int c)"
    have cb: "0 < c" "c < 256"
      using lt k uint_byte_bounds [of "h (uint b * 16 + 1)"]
      by (simp_all add: c_def free_chunks_def)
    have e: "uint b * 16 + 16 * k + 16 * c = free_end h b"
      by (simp add: c_def fb(4))
    have wl: "wf_live h4 q"
      using fb(1,3) k e cb by (simp add: wf_live_def q_def live_chunks_def uint_byte_of_int h4_def)
    have lr: "live_region h4 q = {uint b * 16 + 16 * k ..< free_end h b}"
      using cb e by (simp add: live_region_def q_def live_chunks_def h4_def uint_byte_of_int)
    have T: "T = freed h4 q"
      using lt by (simp add: T_def taken_def U_def c_def q_def h4_def)
    have h40: "h4 0 = free_next h b"
      using fb k by (simp add: h4_def U0)
    note F = freed_block [OF wl]
    from F(1-5) show ?thesis
      unfolding T [symmetric] q_def [symmetric] by (simp add: h40 lr)
  qed
qed

lemma acquire_inv:
  assumes inv: "arena_inv h L (pre @ b # post)" and k: "1 \<le> k" "k \<le> free_chunks h b"
  shows "arena_inv (taken h b k) (insert (uint b * 16 + 1) L)
           ((if k < free_chunks h b then [block_index (uint b * 16 + 16 * k + 1)] else []) @ post)"
    and "live_region (taken h b k) (uint b * 16 + 1) = {uint b * 16 ..< uint b * 16 + 16 * k}"
    and "uint b * 16 + 1 \<notin> L"
proof -
  from inv have ok: "blocks_ok h (h 0) L (pre @ b # post)"
    by (simp add: arena_inv_def)
  note D = blocks_okD [OF ok]
  define T where "T = taken h b k"
  define p where "p = uint b * 16 + 1"
  define nx where "nx = free_next h b"
  have b_in: "b \<in> set (pre @ b # post)"
    by simp
  have wf: "wf_free h b"
    using chain_wf [OF D(1) b_in] .
  note fb = wf_free_bounds [OF wf]
  have ch: "chain h nx post"
    unfolding nx_def using D(1) by (rule chain_append)
  have post_in: "a \<in> set (pre @ b # post)" if "a \<in> set post" for a
    using that by simp
  have post_ne: "a \<noteq> b" if "a \<in> set post" for a
    using D(2) that by auto
  have nx0: "free_next h b \<noteq> 0 \<longrightarrow> h (uint (free_next h b) * 16) = 0"
  proof
    assume "free_next h b \<noteq> 0"
    with ch have "free_next h b \<in> set post"
      unfolding nx_def by (rule chain_next_in)
    from D(3) [OF post_in [OF this]] show "h (uint (free_next h b) * 16) = 0" .
  qed
  note tf = taken_facts [OF wf k nx0, folded T_def p_def nx_def]
  have Rdef: "free_region h b = {uint b * 16 ..< free_end h b}"
    by (simp add: free_region_def)
  have sub_live: "live_region T p \<subseteq> free_region h b"
    using k fb by (simp add: tf(3) Rdef)
  have frame_free: "T i = h i" if "a \<in> set post" "i \<in> free_region h a" for a i
  proof -
    have "i \<notin> free_region h b"
      using D(5) [OF post_in [OF that(1)] b_in post_ne [OF that(1)]] that(2) by blast
    moreover have "i \<noteq> 0"
      using free_region_members(4) [OF chain_wf [OF D(1) post_in [OF that(1)]]] that(2) by blast
    ultimately show ?thesis
      by (rule tf(1))
  qed
  have frame_live: "T (q - 1) = h (q - 1)" if "q \<in> L" for q
  proof -
    note m = live_region_members [OF D(4) [OF that]]
    have "q - 1 \<notin> free_region h b"
      using D(6) [OF b_in that] m(1) by blast
    moreover have "q - 1 \<noteq> 0"
      using m by metis
    ultimately show ?thesis
      by (rule tf(1))
  qed
  have Rf: "free_region T a = free_region h a" if "a \<in> set post" for a
  proof -
    have "\<forall>i\<in>free_region h a. T i = h i"
      using frame_free [OF that] by blast
    from wf_free_frame(5) [OF chain_wf [OF D(1) post_in [OF that]] this] show ?thesis .
  qed
  have Rl: "live_region T q = live_region h q" if "q \<in> L" for q
    using frame_live [OF that] by (simp add: live_region_def live_chunks_def)
  have dis_free: "free_region T a \<inter> free_region h b = {}" if "a \<in> set post" for a
    using D(5) [OF post_in [OF that] b_in post_ne [OF that]] Rf [OF that] by simp
  have dis_live: "live_region T q \<inter> free_region h b = {}" if "q \<in> L" for q
    using D(6) [OF b_in that] Rl [OF that] by (simp add: Int_commute)
  have "blocks_ok h nx L post"
    using ok ch by (rule blocks_ok_shrink) (use D(2) in auto)
  then have ok1: "blocks_ok T nx L post"
    using frame_free frame_live by (rule blocks_ok_frame)
  show "live_region (taken h b k) (uint b * 16 + 1) = {uint b * 16 ..< uint b * 16 + 16 * k}"
    using tf(3) by (simp add: T_def p_def)
  show "uint b * 16 + 1 \<notin> L"
  proof
    assume "uint b * 16 + 1 \<in> L"
    from D(6) [OF b_in this] live_region_members(1) [OF D(4) [OF this]]
      free_region_members(1) [OF wf]
    show False by auto
  qed
  show "arena_inv (taken h b k) (insert (uint b * 16 + 1) L)
           ((if k < free_chunks h b then [block_index (uint b * 16 + 16 * k + 1)] else []) @ post)"
  proof (cases "k < free_chunks h b")
    case False
    have "blocks_ok T nx (insert p L) post"
      using ok1 tf(2)
    proof (rule blocks_ok_add_live)
      show "free_region T a \<inter> live_region T p = {}" if "a \<in> set post" for a
        using dis_free [OF that] sub_live by blast
      show "live_region T q \<inter> live_region T p = {}" if "q \<in> L" for q
        using dis_live [OF that] sub_live by blast
    qed
    with False tf(4) [OF False] show ?thesis
      by (simp add: arena_inv_def T_def [symmetric] p_def [symmetric])
  next
    case True
    define r where "r = block_index (uint b * 16 + 16 * k + 1)"
    from tf(5) [OF True] have r: "T 0 = r" "wf_free T r" "free_next T r = nx" "T (uint r * 16) = 0"
      "free_region T r = {uint b * 16 + 16 * k ..< free_end h b}"
      by (simp_all add: r_def)
    have sub_rest: "free_region T r \<subseteq> free_region h b"
      using k by (simp add: r(5) Rdef)
    have "blocks_ok T r L (r # post)"
      using ok1 r(2,3,4)
    proof (rule blocks_ok_push_free)
      show "free_region T r \<inter> free_region T a = {}" if "a \<in> set post" for a
        using dis_free [OF that] sub_rest by blast
      show "free_region T r \<inter> live_region T q = {}" if "q \<in> L" for q
        using dis_live [OF that] sub_rest by blast
    qed
    then have "blocks_ok T r (insert p L) (r # post)"
      using tf(2)
    proof (rule blocks_ok_add_live)
      show "free_region T a \<inter> live_region T p = {}" if "a \<in> set (r # post)" for a
      proof (cases "a = r")
        case True
        then show ?thesis
          by (simp add: r(5) tf(3))
      next
        case False
        with that have "a \<in> set post" by simp
        from dis_free [OF this] sub_live show ?thesis by blast
      qed
      show "live_region T q \<inter> live_region T p = {}" if "q \<in> L" for q
        using dis_live [OF that] sub_live by blast
    qed
    with True r(1) show ?thesis
      by (simp add: arena_inv_def T_def [symmetric] p_def [symmetric] r_def)
  qed
qed

section \<open>Runs\<close>

text \<open>
  A request above \<open>2147483631\<close> cannot be rounded inside an \<^verbatim>\<open>int\<close>: the call is
  undefined behaviour, a fault of the model.
\<close>

lemma round_request_too_large:
  assumes "2147483631 < r"
  shows "round_request r = Inl Signed_overflow"
proof (cases "r + 1 \<le> INT_MAX")
  case False
  then show ?thesis
    by (simp add: round_request_def int_result_def)
next
  case True
  then have 1: "int_result (r + 1) = Inr (r + 1)"
    using assms by (simp add: int_result_def arena_consts)
  have 2: "(r + 1) smod 16 = (r + 1) mod 16"
    using assms by (simp add: smod_nonneg)
  define m where "m = 16 * ((r + 16) div 16)"
  have "r + 1 \<le> m"
    using round_up_16_bounds [of r] by (simp add: m_def)
  with assms have "2147483632 < 16 * ((r + 16) div 16)"
    by (simp add: m_def)
  then have "134217727 < (r + 16) div 16"
    by linarith
  then have big: "INT_MAX < m"
    by (simp add: m_def arena_consts)
  have nz: "(r + 1) mod 16 \<noteq> 0"
  proof
    assume "(r + 1) mod 16 = 0"
    from round_up_16_exact [OF this] have "r + 1 = m"
      by (simp add: m_def)
    with True big show False by simp
  qed
  have "r + 1 + (16 - (r + 1) mod 16) = m"
    using round_up_16 [OF nz] by (simp only: m_def)
  moreover have "int_result m = Inl Signed_overflow"
    using big by (simp add: int_result_def)
  ultimately show ?thesis
    using nz by (simp only: round_request_def BLOCK_SIZE_def 1 2 bind_fault.simps simp_thms
          if_True if_False)
qed

text \<open>Each call within the contract keeps the invariant.\<close>

lemma store_inv:
  assumes inv: "arena_inv h L bs" and p: "p \<in> L" and i: "0 \<le> i" "i < 16 * live_chunks h p - 1"
  shows "heap_store h (p + i) v = Inr (h(p + i := v))" "arena_inv (h(p + i := v)) L bs"
proof -
  from inv have ok: "blocks_ok h (h 0) L bs"
    by (simp add: arena_inv_def)
  note D = blocks_okD [OF ok]
  note lb = wf_live_bounds [OF D(4) [OF p]]
  have inr: "p + i \<in> live_region h p" "p + i \<noteq> p - 1" "p + i \<noteq> 0"
    using i lb by (simp_all add: live_region_def)
  show "heap_store h (p + i) v = Inr (h(p + i := v))"
    using i lb by (simp add: heap_store_def arena_consts)
  have "blocks_ok (h(p + i := v)) (h 0) L bs"
    using ok
  proof (rule blocks_ok_frame)
    show "(h(p + i := v)) j = h j" if "b \<in> set bs" "j \<in> free_region h b" for b j
      using D(6) [OF that(1) p] that(2) inr(1) by auto
    show "(h(p + i := v)) (q - 1) = h (q - 1)" if "q \<in> L" for q
    proof (cases "q = p")
      case True
      with inr(2) show ?thesis by simp
    next
      case False
      from D(7) [OF that p False] live_region_members(1) [OF D(4) [OF that]] inr(1)
      show ?thesis by auto
    qed
  qed
  with inr(3) show "arena_inv (h(p + i := v)) L bs"
    by (simp add: arena_inv_def)
qed

lemma malloc_inv:
  assumes inv: "arena_inv h L bs" and r: "0 \<le> r" "r \<le> 2147483631"
  shows "(rdx_malloc h r = Some (Inr (h, None)))
       \<or> (\<exists>h' p bs'. rdx_malloc h r = Some (Inr (h', Some p)) \<and> arena_inv h' (insert p L) bs'
             \<and> p \<notin> L \<and> {p ..< p + r} \<subseteq> live_region h' p)"
proof -
  from inv have ok: "blocks_ok h (h 0) L bs"
    by (simp add: arena_inv_def)
  note D = blocks_okD [OF ok]
  define k where "k = (r + 16) div 16"
  have rr: "round_request r = Inr (16 * k)"
    unfolding k_def using r by (rule round_request_eq)
  have k1: "1 \<le> k"
    using r by (simp add: k_def pos_imp_zdiv_pos_iff)
  have rk: "r + 1 \<le> 16 * k"
    using round_up_16_bounds [of r] by (simp add: k_def)
  have m: "rdx_malloc h r = find_block h (16 * k) (h 0)"
    by (simp add: rdx_malloc_def rr read_head)
  show ?thesis
  proof (cases "\<exists>b\<in>set bs. 16 * k \<le> 16 * free_chunks h b")
    case False
    then have "\<forall>b\<in>set bs. 16 * free_chunks h b < 16 * k"
      by auto
    from find_block_none [OF D(1) this] m show ?thesis
      by simp
  next
    case True
    then obtain pre b post where bs: "bs = pre @ b # post"
      and fit: "16 * k \<le> 16 * free_chunks h b"
      and small: "\<forall>a\<in>set pre. \<not> 16 * k \<le> 16 * free_chunks h a"
      using split_list_first_prop [of bs "\<lambda>b. 16 * k \<le> 16 * free_chunks h b"] by blast
    have b_in: "b \<in> set bs"
      by (simp add: bs)
    have wf: "wf_free h b"
      using chain_wf [OF D(1) b_in] .
    have kf: "k \<le> free_chunks h b"
      using fit by simp
    have "\<forall>a\<in>set pre. 16 * free_chunks h a < 16 * k"
      using small by auto
    with D(1) have "find_block h (16 * k) (h 0) = Some (take_block h (16 * k) b (16 * free_chunks h b))"
      unfolding bs using fit by (intro find_block_found) simp_all
    also have "\<dots> = Some (Inr (taken h b k, Some (uint b * 16 + 1)))"
      using take_block_eq [OF wf D(3) [OF b_in] k1 kf] by simp
    finally have 1: "rdx_malloc h r = Some (Inr (taken h b k, Some (uint b * 16 + 1)))"
      by (simp add: m)
    note A = acquire_inv [OF inv [unfolded bs] k1 kf]
    from A(1) have 2: "\<exists>bs'. arena_inv (taken h b k) (insert (uint b * 16 + 1) L) bs'"
      by blast
    have 3: "{uint b * 16 + 1 ..< uint b * 16 + 1 + r} \<subseteq> live_region (taken h b k) (uint b * 16 + 1)"
      using rk by (simp add: A(2))
    from 1 2 3 A(3) show ?thesis
      by blast
  qed
qed

lemma call_step_inv:
  assumes inv: "arena_inv h (set L) bs" and d: "distinct L" and c: "in_contract h L c"
  shows "(\<exists>h' L' bs'. call_step h L c = Finished h' L' \<and> arena_inv h' (set L') bs' \<and> distinct L')
       \<or> (\<exists>n. c = Acquire n \<and> 2147483631 < n \<and> call_step h L c = Faulted Signed_overflow)"
proof (cases c)
  case (Acquire n)
  with c have n: "0 \<le> n" by simp
  show ?thesis
  proof (cases "n \<le> 2147483631")
    case True
    from malloc_inv [OF inv n True] show ?thesis
    proof (elim disjE exE conjE)
      assume "rdx_malloc h n = Some (Inr (h, None))"
      with inv d show ?thesis
        by (auto simp: Acquire)
    next
      fix h' p bs'
      assume "rdx_malloc h n = Some (Inr (h', Some p))" "arena_inv h' (insert p (set L)) bs'"
        "p \<notin> set L"
      with d show ?thesis
        by (auto simp: Acquire)
    qed
  next
    case False
    then have "round_request n = Inl Signed_overflow"
      by (intro round_request_too_large) simp
    with False show ?thesis
      by (simp add: Acquire rdx_malloc_def)
  qed
next
  case (Release p)
  with c have p: "p \<in> set L" by simp
  from inv have "blocks_ok h (h 0) (set L) bs"
    by (simp add: arena_inv_def)
  from blocks_okD(4) [OF this p] have "rdx_free h p = Inr (freed h p)"
    by (rule rdx_free_eq)
  moreover have "set (remove1 p L) = set L - {p}"
    using d by (rule set_remove1_eq)
  ultimately show ?thesis
    using release_inv [OF inv p] d by (auto simp: Release)
next
  case (Store p i v)
  with c have "p \<in> set L" "0 \<le> i" "i < 16 * live_chunks h p - 1" by simp_all
  from store_inv [OF inv this] d show ?thesis
    by (auto simp: Store)
qed

lemma run_from_inv:
  "arena_inv h (set L) bs \<Longrightarrow> distinct L \<Longrightarrow> run_from h L cs = Finished h' L'
     \<Longrightarrow> (\<exists>bs'. arena_inv h' (set L') bs') \<and> distinct L'"
proof (induction cs arbitrary: h L bs)
  case Nil
  then show ?case by auto
next
  case (Cons c cs)
  from Cons.prems(3) have c: "in_contract h L c"
    by (simp split: if_splits)
  from call_step_inv [OF Cons.prems(1,2) c] show ?case
  proof (elim disjE exE conjE)
    fix h1 L1 bs1
    assume s: "call_step h L c = Finished h1 L1" and i: "arena_inv h1 (set L1) bs1"
      and d: "distinct L1"
    from Cons.prems(3) c s have "run_from h1 L1 cs = Finished h' L'"
      by simp
    from Cons.IH [OF i d this] show ?thesis .
  next
    fix n
    assume "call_step h L c = Faulted Signed_overflow"
    with Cons.prems(3) c show ?thesis
      by simp
  qed
qed

lemma init_inv: "arena_inv (init_heap h0) {} [1]"
  by (simp add: arena_inv_def blocks_ok_def init_heap_def arena_consts view_defs)

lemma run_inv:
  assumes "run h0 cs = Finished h L"
  shows "\<exists>bs. blocks_ok h (h 0) (set L) bs" and "distinct L"
proof -
  have "arena_inv (init_heap h0) (set []) [1]" and "distinct ([] :: int list)"
    using init_inv by simp_all
  from run_from_inv [OF this assms [unfolded run_def]]
  show "\<exists>bs. blocks_ok h (h 0) (set L) bs" and "distinct L"
    by (simp_all add: arena_inv_def)
qed

text \<open>
  A run does not diverge, and its only fault is the overflow of a request too large to
  round: otherwise it ends in a state, or at a call outside the contract.
\<close>

lemma run_from_outcome:
  "arena_inv h (set L) bs \<Longrightarrow> distinct L \<Longrightarrow>
     run_from h L cs = Contract_broken
     \<or> (run_from h L cs = Faulted Signed_overflow \<and> (\<exists>n. Acquire n \<in> set cs \<and> 2147483631 < n))
     \<or> (\<exists>h' L'. run_from h L cs = Finished h' L')"
proof (induction cs arbitrary: h L bs)
  case Nil
  then show ?case by simp
next
  case (Cons c cs)
  show ?case
  proof (cases "in_contract h L c")
    case False
    then show ?thesis by simp
  next
    case True
    from call_step_inv [OF Cons.prems True] show ?thesis
    proof (elim disjE exE conjE)
      fix h1 L1 bs1
      assume s: "call_step h L c = Finished h1 L1" and i: "arena_inv h1 (set L1) bs1"
        and d: "distinct L1"
      from Cons.IH [OF i d] s True show ?thesis
        by auto
    next
      fix n
      assume "c = Acquire n" "2147483631 < n" "call_step h L c = Faulted Signed_overflow"
      with True show ?thesis
        by auto
    qed
  qed
qed

lemma run_outcome:
  "run h0 cs = Contract_broken
     \<or> (run h0 cs = Faulted Signed_overflow \<and> (\<exists>n. Acquire n \<in> set cs \<and> 2147483631 < n))
     \<or> (\<exists>h L. run h0 cs = Finished h L)"
proof -
  have "arena_inv (init_heap h0) (set []) [1]" and "distinct ([] :: int list)"
    using init_inv by simp_all
  from run_from_outcome [OF this] show ?thesis
    by (simp add: run_def)
qed

text \<open>
  In every state reached the walk from the head cell ends and meets no block twice, and
  every block on the free list has previous pointer 0.
\<close>

lemma chain_walk: "chain h x bs \<Longrightarrow> walk h x = Some bs"
proof (induction bs arbitrary: x)
  case Nil
  then show ?case
    by (subst walk.simps) simp
next
  case (Cons b bs)
  from Cons.prems have x: "x = b" "b \<noteq> 0" and wf: "wf_free h b"
    and rest: "chain h (free_next h b) bs"
    by (simp_all add: wf_free_def)
  from Cons.IH [OF rest] show ?case
    by (subst walk.simps) (simp add: x get_next_eq [OF wf])
qed

lemma free_list_acyclic_prev_zero:
  assumes "run h0 cs = Finished h L"
  shows "\<exists>bs. free_list h = Some bs \<and> distinct bs \<and> (\<forall>b\<in>set bs. get_prev h (uint b) = Inr 0)"
proof -
  from run_inv(1) [OF assms] obtain bs where "blocks_ok h (h 0) (set L) bs"
    by blast
  note D = blocks_okD [OF this]
  have "free_list h = Some bs"
    unfolding free_list_def using D(1) by (rule chain_walk)
  moreover have "\<forall>b\<in>set bs. get_prev h (uint b) = Inr 0"
    using D(3) by (simp add: get_prev_eq)
  ultimately show ?thesis
    using D(2) by blast
qed

text \<open>
  An address that acquire returns is not one the caller holds already, and the block it
  heads has room for the bytes requested.
\<close>

lemma acquired_block:
  assumes run: "run h0 cs = Finished h L" and r: "0 \<le> r"
    and m: "rdx_malloc h r = Some (Inr (h', Some p))"
  shows "p \<notin> set L" and "{p ..< p + r} \<subseteq> live_region h' p"
proof -
  from run_inv(1) [OF run] obtain bs where inv: "arena_inv h (set L) bs"
    by (auto simp: arena_inv_def)
  have small: "r \<le> 2147483631"
  proof (rule ccontr)
    assume "\<not> r \<le> 2147483631"
    then have "round_request r = Inl Signed_overflow"
      by (intro round_request_too_large) simp
    with m show False
      by (simp add: rdx_malloc_def)
  qed
  from malloc_inv [OF inv r small] m
  show "p \<notin> set L" and "{p ..< p + r} \<subseteq> live_region h' p"
    by auto
qed

text \<open>Two runs on the zeroed arena.\<close>

lemma run_acquire_16:
  "run zero_heap [Acquire 16]
     = Finished (zero_heap(0 := 3, 16 := 2, 17 := 255, 48 := 0, 49 := 253, 4095 := 0)) [17]"
  by (simp add: run_def alloc_evals fun_eq_iff)

lemma run_mixed_calls:
  "run zero_heap [Acquire 16, Store 17 0 104, Acquire 16, Release 17, Acquire 5, Acquire 16]
    = Finished
        (zero_heap(0 := 7, 16 := 1, 17 := 2, 32 := 0, 33 := 1, 47 := 5, 48 := 2, 49 := 253,
           80 := 2, 81 := 251, 112 := 0, 113 := 249, 4095 := 0))
        [81, 17, 49]"
  by (simp add: run_def alloc_evals live_chunks_def fun_eq_iff)

section \<open>Claims about every run\<close>

text \<open>
  C1. In the state after any sequence of calls that keeps the contract, two addresses
  held at different positions head blocks whose byte ranges are disjoint. (An address
  returned twice without a release between would be held at two positions.)
\<close>

theorem held_regions_never_overlap:
  assumes "run h0 cs = Finished h L" and "i < length L" and "j < length L" and "i \<noteq> j"
  shows "live_region h (L ! i) \<inter> live_region h (L ! j) = {}"
proof -
  from run_inv [OF assms(1)] obtain bs where ok: "blocks_ok h (h 0) (set L) bs" and d: "distinct L"
    by blast
  have "L ! i \<noteq> L ! j"
    using d assms(2-4) by (simp add: nth_eq_iff_index_eq)
  moreover have "L ! i \<in> set L" "L ! j \<in> set L"
    using assms(2,3) by simp_all
  ultimately show ?thesis
    using blocks_okD(7) [OF ok] by blast
qed

text \<open>
  The theorem on a run of six calls that ends holding 81, 17 and 49: the blocks of 17
  and 49 are the bytes 16 to 31 and 48 to 79.
\<close>

theorem held_regions_never_overlap_witness:
  "case run zero_heap [Acquire 16, Store 17 0 104, Acquire 16, Release 17, Acquire 5, Acquire 16] of
     Finished h L \<Rightarrow> L = [81, 17, 49]
       \<and> live_region h (L ! 1) = {16..<32} \<and> live_region h (L ! 2) = {48..<80}
       \<and> live_region h (L ! 1) \<inter> live_region h (L ! 2) = {}
   | _ \<Rightarrow> False"
proof -
  define H where "H = zero_heap(0 := 7, 16 := 1, 17 := 2, 32 := 0, 33 := 1, 47 := 5, 48 := 2,
    49 := 253, 80 := 2, 81 := 251, 112 := 0, 113 := 249, 4095 := 0)"
  have r: "run zero_heap [Acquire 16, Store 17 0 104, Acquire 16, Release 17, Acquire 5, Acquire 16]
      = Finished H [81, 17, 49]"
    unfolding H_def by (rule run_mixed_calls)
  have "live_region H ([81, 17, 49] ! 1) \<inter> live_region H ([81, 17, 49] ! 2) = {}"
    by (rule held_regions_never_overlap [OF r]) simp_all
  moreover have "live_region H 17 = {16..<32}" "live_region H 49 = {48..<80}"
    by (simp_all add: H_def live_region_def live_chunks_def)
  ultimately show ?thesis
    by (simp add: r)
qed

text \<open>
  Failure of the search. When the free list from the head cell is a chain of well-formed
  blocks, each shorter than the rounded length of the request, \<open>rdx_malloc\<close> returns
  null and the arena it leaves is the arena it was given. This needs the rounded length
  to exist.
\<close>

lemma acquire_fails_unchanged:
  assumes "chain h (h 0) bs" and "round_request r = Inr m"
    and "\<forall>b\<in>set bs. 16 * free_chunks h b < m"
  shows "rdx_malloc h r = Some (Inr (h, None))"
  using assms by (simp add: rdx_malloc_def read_head find_block_none)

text \<open>The same on the fresh arena, with the request 4080 that rounds to 4096.\<close>

lemma acquire_fails_unchanged_witness:
  "rdx_malloc (init_heap zero_heap) 4080 = Some (Inr (init_heap zero_heap, None))"
proof -
  have "chain (init_heap zero_heap) (init_heap zero_heap 0) [1]"
    by (simp add: init_heap_def zero_heap_def arena_consts view_defs)
  moreover have "round_request 4080 = Inr 4096"
    by (simp add: round_request_def arena_consts int_result_def smod_nonneg)
  moreover have "\<forall>b\<in>set [1]. 16 * free_chunks (init_heap zero_heap) b < 4096"
    by (simp add: init_heap_def zero_heap_def arena_consts view_defs)
  ultimately show ?thesis
    by (rule acquire_fails_unchanged)
qed

text \<open>
  C7, evaluated where it fails. On a fresh arena the free list is the one block 1 of 4080
  bytes, so no block is long enough for a request of 2147483647 bytes; the claim has
  \<open>rdx_malloc\<close> return null and leave the arena as it was. The code overflows in
  \<^verbatim>\<open>bytes++\<close> before it looks at the free list, which is undefined behaviour and
  not a null result. The request 2147483631, the largest that rounds, does return null
  with the arena unchanged.
\<close>

theorem acquire_overflow_not_null:
  "rdx_malloc (init_heap h0) 2147483647 = Some (Inl Signed_overflow)
   \<and> free_list (init_heap h0) = Some [1]
   \<and> 16 * free_chunks (init_heap h0) 1 = 4080
   \<and> rdx_malloc (init_heap h0) 2147483631 = Some (Inr (init_heap h0, None))"
  by (simp add: alloc_evals view_defs fun_eq_iff)

text \<open>
  C9. In the state after any sequence of calls that keeps the contract, the release of a
  held address \<open>p\<close> returns, and in the arena it leaves the byte 1 of the block (the byte
  at \<open>p\<close>) holds the chunk count read from the byte before \<open>p\<close>, the next pointer of
  the block is the old head, its previous pointer is 0, and the head cell holds the index
  of the block.
\<close>

theorem release_pushes_block:
  assumes "run h0 cs = Finished h L" and "p \<in> set L"
  shows "\<exists>h'. rdx_free h p = Inr h'
     \<and> h' p = h (p - 1)
     \<and> free_chunks h' (block_index p) = live_chunks h p
     \<and> get_next h' (uint (block_index p)) = Inr (h 0)
     \<and> get_prev h' (uint (block_index p)) = Inr 0
     \<and> h' 0 = block_index p"
proof -
  from run_inv(1) [OF assms(1)] obtain bs where "blocks_ok h (h 0) (set L) bs"
    by blast
  from blocks_okD(4) [OF this assms(2)] have wl: "wf_live h p" .
  note lb = wf_live_bounds [OF wl]
  note fb = freed_block [OF wl]
  have "rdx_free h p = Inr (freed h p)"
    using wl by (rule rdx_free_eq)
  moreover have "freed h p p = h (p - 1)"
    using lb by (simp add: freed_def)
  moreover have "get_next (freed h p) (uint (block_index p)) = Inr (h 0)"
    using get_next_eq [OF fb(2)] fb(3) by simp
  moreover have "get_prev (freed h p) (uint (block_index p)) = Inr 0"
    using fb(4) by (simp add: get_prev_eq)
  ultimately show ?thesis
    using fb(1,6) by simp
qed

text \<open>The theorem after initialise and acquire(16), at the address 17.\<close>

theorem release_pushes_block_witness:
  "case run zero_heap [Acquire 16] of
     Finished h L \<Rightarrow> 17 \<in> set L \<and> (\<exists>h'. rdx_free h 17 = Inr h'
       \<and> h' 17 = h (17 - 1)
       \<and> free_chunks h' (block_index 17) = live_chunks h 17
       \<and> get_next h' (uint (block_index 17)) = Inr (h 0)
       \<and> get_prev h' (uint (block_index 17)) = Inr 0
       \<and> h' 0 = block_index 17)
   | _ \<Rightarrow> False"
  using release_pushes_block [OF run_acquire_16, of 17] by (simp add: run_acquire_16)

section \<open>The scenarios\<close>

text \<open>
  C6 (scenario A). After initialise, acquire(16) giving \<open>P\<close> and release of \<open>P\<close>, the
  call acquire(5) succeeds with an address \<open>Q\<close> inside the bytes that the block of \<open>P\<close>
  occupied: \<open>P\<close> and \<open>Q\<close> are both 17, and the block was the bytes 16 to 47.
\<close>

theorem scenario_A_reuses_block:
  "\<exists>h1 h3 P Q. scenario_A h0 = Some (h1, P, h3, Q) \<and> Q \<in> live_region h1 P
     \<and> P = 17 \<and> Q = 17 \<and> live_region h1 P = {16..<48}"
  by (simp add: scenario_A_def alloc_evals view_defs)

text \<open>
  C4 (scenario B), as amended. On a fresh arena acquire(4080) fails, since it needs a block
  of 4096 bytes and the one free block has 4080; acquire(4079) succeeds, and a further
  acquire(1) then fails.
\<close>

theorem scenario_B_capacity:
  "scenario_B h0 4080 = Some (None, Some 17) \<and> scenario_B h0 4079 = Some (Some 17, None)"
  by (simp add: scenario_B_def alloc_evals fun_eq_iff)

text \<open>C4 as stated fails: on the zeroed arena, initialised, acquire(4080) returns null.\<close>

theorem scenario_B_4080_fails: "scenario_B zero_heap 4080 = Some (None, Some 17)"
  by (simp add: scenario_B_def zero_heap_def alloc_evals fun_eq_iff)

text \<open>
  C5 (scenario C), as amended. After acquire(16) twice and the release of both results in
  the order of acquisition, the free list holds three blocks: the block released second
  (index 3) at the head, the block released first (index 1), and the remainder that the
  second acquire split off (index 5).
\<close>

theorem scenario_C_free_list:
  "scenario_C h0 = Some (17, 49, [3, 1, 5]) \<and> block_index 49 = 3 \<and> block_index 17 = 1"
  by (simp add: scenario_C_def alloc_evals view_defs fun_eq_iff)

text \<open>C5 as stated fails: on the zeroed arena the free list has three blocks, not two.\<close>

theorem scenario_C_three_blocks: "free_list_length (scenario_C zero_heap) = Some 3"
  by (simp add: scenario_C_def free_list_length_def zero_heap_def alloc_evals view_defs
        fun_eq_iff)

text \<open>
  C10. On a fresh arena acquire(-1) looks for a block of 0 bytes and returns the address
  17; afterwards the free list is the one block 1, whose bytes include 17. (The arena
  is left as initialised: the block handed out is on the free list still.)
\<close>

theorem acquire_minus_one:
  "round_request (- 1) = Inr 0
   \<and> rdx_malloc (init_heap h0) (- 1) = Some (Inr (init_heap h0, Some 17))
   \<and> free_list (init_heap h0) = Some [1]
   \<and> 17 \<in> free_region (init_heap h0) 1"
  by (simp add: alloc_evals view_defs fun_eq_iff)

section \<open>Release and the previous pointer\<close>

text \<open>
  C3, evaluated where it fails. After initialise and acquire(16) the head cell holds 3;
  the release of the address 17 (block 1) then leaves the previous pointer of block 3
  at 0: \<open>rdx_free\<close> never writes the old head's previous pointer.
\<close>

theorem release_keeps_old_head_prev:
  "\<exists>h1 h2. acquire_release h0 16 = Some (h1, 17, h2) \<and> h1 0 = 3 \<and> block_index 17 = 1
     \<and> get_prev h2 (uint (3::byte)) = Inr 0"
  by (simp add: acquire_release_def alloc_evals view_defs)

text \<open>
  C2, evaluated where it fails. In the same arena the free list is block 1 followed by
  block 3, the next pointer of block 1 is 3, and the previous pointer of block 3 is 0,
  not 1.
\<close>

theorem free_list_prev_inconsistent:
  "\<exists>h1 h2. acquire_release h0 16 = Some (h1, 17, h2) \<and> free_list h2 = Some [1, 3]
     \<and> get_next h2 (uint (1::byte)) = Inr 3 \<and> get_prev h2 (uint (3::byte)) = Inr 0"
  by (simp add: acquire_release_def alloc_evals view_defs)

text \<open>
  What the missing back link costs. With the free list block 1 followed by block 3, an
  acquire that block 1 cannot serve takes block 3, finds its previous pointer 0, treats
  it as the head and sets the head cell to its successor: block 1 is on no list and held
  by no caller.
\<close>

lemma released_block_lost:
  "\<exists>h. run h0 [Acquire 16, Release 17, Acquire 100] = Finished h [49]
     \<and> free_list h = Some [10]"
  by (simp add: run_def alloc_evals view_defs)

end
